theory Spec2Isabelle
  imports Main "HOL-Library.Word" "HOL-Library.AList"
begin

section \<open>Python values and library functions used by label_app/views.py\<close>

text \<open>
  A byte of an edit key is an 8-bit word; a user is the primary key of the logged-in user
  (\<open>request.user\<close>); a point in time is a natural number. The coordinates of a polygon are
  Python floats: their type is the parameter \<open>'c\<close> of the model, and the two conversions
  the views apply to them are parameters of the functions below
  (\<open>round2\<close> for \<open>float("{:.2f}".format(float(s)))\<close>, \<open>None\<close> where the source raises, and
  \<open>fmt2\<close> for \<open>"{:.2f}".format(v)\<close>).
\<close>

type_synonym byte = "8 word"

type_synonym user = nat

type_synonym datetime = nat

datatype error =
    SuspiciousOperation string
  | Http404 string
  | UnboundLocalError
  | AttributeError
  | KeyError
  | IndexError
  | IntegrityError
  | DoesNotExist
  | MultipleObjectsReturned

subsection \<open>Strings and numbers\<close>

definition is_space :: "char \<Rightarrow> bool" where
  "is_space c = (let n = (of_char c :: nat) in (9 \<le> n \<and> n \<le> 13) \<or> (28 \<le> n \<and> n \<le> 32))"

definition strip :: "string \<Rightarrow> string" where
  "strip s = rev (dropWhile is_space (rev (dropWhile is_space s)))"

definition digit_val :: "char \<Rightarrow> nat option" where
  "digit_val c = (let n = (of_char c :: nat) in if 48 \<le> n \<and> n \<le> 57 then Some (n - 48) else None)"

text \<open>The digits of a Python integer literal in base 10: a single underscore may stand
  between two digits.\<close>

fun parse_digits :: "nat \<Rightarrow> string \<Rightarrow> nat option" where
  "parse_digits acc [] = Some acc"
| "parse_digits acc (c # cs) =
     (if c = CHR ''_'' then
        (case cs of
           [] \<Rightarrow> None
         | d # ds \<Rightarrow> (case digit_val d of None \<Rightarrow> None | Some v \<Rightarrow> parse_digits (acc * 10 + v) ds))
      else (case digit_val c of None \<Rightarrow> None | Some v \<Rightarrow> parse_digits (acc * 10 + v) cs))"

text \<open>\<open>int(s)\<close> on a string: \<open>None\<close> is the ValueError. Surrounding white space is
  dropped, one sign is allowed, and the first character after it is a digit.\<close>

definition unsigned_of_str :: "string \<Rightarrow> nat option" where
  "unsigned_of_str s =
     (case s of
        [] \<Rightarrow> None
      | c # cs \<Rightarrow> (case digit_val c of None \<Rightarrow> None | Some v \<Rightarrow> parse_digits v cs))"

definition int_of_str :: "string \<Rightarrow> int option" where
  "int_of_str s =
     (case strip s of
        [] \<Rightarrow> None
      | c # cs \<Rightarrow>
          if c = CHR ''-'' then map_option (\<lambda>n. - int n) (unsigned_of_str cs)
          else if c = CHR ''+'' then map_option int (unsigned_of_str cs)
          else map_option int (unsigned_of_str (c # cs)))"

text \<open>\<open>"{}".format(i)\<close> for an integer.\<close>

fun str_nat :: "nat \<Rightarrow> string" where
  "str_nat n = (if n < 10 then [char_of (48 + n)] else str_nat (n div 10) @ [char_of (48 + n mod 10)])"

definition str_int :: "int \<Rightarrow> string" where
  "str_int i = (if i < 0 then CHR ''-'' # str_nat (nat (- i)) else str_nat (nat i))"

subsection \<open>Bytes and hexadecimal text\<close>

definition hex_val :: "char \<Rightarrow> nat option" where
  "hex_val c =
     (let n = (of_char c :: nat) in
      if 48 \<le> n \<and> n \<le> 57 then Some (n - 48)
      else if 97 \<le> n \<and> n \<le> 102 then Some (n - 87)
      else if 65 \<le> n \<and> n \<le> 70 then Some (n - 55)
      else None)"

text \<open>\<open>bytes.fromhex(s)\<close>: two hexadecimal digits per byte, white space allowed between
  bytes; \<open>None\<close> is the ValueError.\<close>

fun bytes_fromhex :: "string \<Rightarrow> byte list option" where
  "bytes_fromhex [] = Some []"
| "bytes_fromhex [c] = (if is_space c then Some [] else None)"
| "bytes_fromhex (c # d # ds) =
     (if is_space c then bytes_fromhex (d # ds)
      else (case hex_val c of
              None \<Rightarrow> None
            | Some h \<Rightarrow>
                (case hex_val d of
                   None \<Rightarrow> None
                 | Some l \<Rightarrow> map_option ((#) (of_nat (16 * h + l))) (bytes_fromhex ds))))"

definition hex_digit :: "nat \<Rightarrow> char" where
  "hex_digit n = (if n < 10 then char_of (48 + n) else char_of (87 + n))"

text \<open>\<open>b.hex()\<close>: two lower-case digits per byte.\<close>

definition bytes_hex :: "byte list \<Rightarrow> string" where
  "bytes_hex bs = concat (map (\<lambda>b. [hex_digit (unat b div 16), hex_digit (unat b mod 16)]) bs)"

subsection \<open>xml.sax.saxutils.escape\<close>

definition escape_char :: "char \<Rightarrow> string" where
  "escape_char c =
     (if c = CHR ''&'' then ''&amp;''
      else if c = CHR ''<'' then ''&lt;''
      else if c = CHR ''>'' then ''&gt;''
      else [c])"

definition xml_escape :: "string \<Rightarrow> string" where
  "xml_escape s = concat (map escape_char s)"

subsection \<open>ElementTree\<close>

text \<open>An element has a tag, a text (\<open>None\<close> for an element without character data,
  as ElementTree has it) and its children in document order.\<close>

datatype element = Element (el_tag: string) (el_text: "string option") (el_children: "element list")

definition findall :: "string \<Rightarrow> element \<Rightarrow> element list" where
  "findall t e = filter (\<lambda>c. el_tag c = t) (el_children e)"

definition find_el :: "string \<Rightarrow> element \<Rightarrow> element option" where
  "find_el t e = (case findall t e of [] \<Rightarrow> None | c # cs \<Rightarrow> Some c)"

text \<open>\<open>e.find(t).text\<close> where the source passes the text on to a function that raises on
  \<open>None\<close> (\<open>int\<close>, \<open>float\<close>, \<open>bytes.fromhex\<close>, \<open>startswith\<close>): the missing child
  (AttributeError) and the missing text (TypeError) end in the same handler, so both
  are \<open>None\<close> here.\<close>

definition find_text :: "string \<Rightarrow> element \<Rightarrow> string option" where
  "find_text t e = Option.bind (find_el t e) el_text"

section \<open>The database\<close>

text \<open>
  Modelled from the spec: the model classes (label_app/models.py, image_mgr/models.py)
  are not among the sources. The rows below have the fields the views read and write
  and the spec's data model names. An instance that was never saved has no primary key
  (\<open>pk = None\<close>), as in Django. The label is optional because the views can assign
  \<open>None\<close> to it; whether the label column accepts NULL is the parameter \<open>null_ok\<close> of
  \<open>save_polygon\<close>. A table is the list of its rows in the order a query returns them.
\<close>

record Image =
  image_pk :: int
  visible :: bool

record Annotation =
  anno_pk :: int
  annotator :: user
  anno_image :: int
  anno_locked :: bool
  anno_deleted :: bool
  edit_key :: "byte list"
  anno_last_edit_time :: datetime

record 'c Polygon =
  pk :: "int option"
  annotation :: int
  anno_index :: "nat option"
  label_as_str :: "string option"
  poly_notes :: string
  occluded :: bool
  points :: "'c list"
  deleted :: bool
  locked :: bool
  last_edit_time :: datetime

record 'c database =
  images :: "Image list"
  annotations :: "Annotation list"
  polygons :: "'c Polygon list"

text \<open>\<open>Model.objects.get(...)\<close>: the one row that satisfies the filter.\<close>

definition objects_get :: "('a \<Rightarrow> bool) \<Rightarrow> 'a list \<Rightarrow> error + 'a" where
  "objects_get P rows =
     (case filter P rows of
        [] \<Rightarrow> Inl DoesNotExist
      | r # rs \<Rightarrow> (case rs of [] \<Rightarrow> Inr r | r' # rs' \<Rightarrow> Inl MultipleObjectsReturned))"

text \<open>\<open>annotation.polygons.filter(deleted=False)\<close>.\<close>

definition visible_polygons :: "Annotation \<Rightarrow> 'c database \<Rightarrow> 'c Polygon list" where
  "visible_polygons a db =
     filter (\<lambda>p. annotation p = anno_pk a \<and> deleted p = False) (polygons db)"

text \<open>The primary key the database gives to an inserted polygon: one that no row has.\<close>

definition fresh_pk :: "'c Polygon list \<Rightarrow> int" where
  "fresh_pk ps = 1 + fold (\<lambda>p m. case pk p of None \<Rightarrow> m | Some k \<Rightarrow> max k m) ps 0"

definition has_pk :: "int \<Rightarrow> 'c Polygon list \<Rightarrow> bool" where
  "has_pk k ps = (Some k \<in> set (map pk ps))"

text \<open>\<open>poly.save()\<close>: writes every field of the instance. An instance without primary
  key is inserted and receives one; an instance with a primary key replaces the row
  that has it, and is inserted when no row has it. The result is the instance after
  the call and the new database.\<close>

definition save_polygon ::
  "bool \<Rightarrow> 'c Polygon \<Rightarrow> 'c database \<Rightarrow> error + ('c Polygon \<times> 'c database)" where
  "save_polygon null_ok p db =
     (if label_as_str p = None \<and> null_ok = False then Inl IntegrityError
      else
        (case pk p of
           None \<Rightarrow>
             (let p' = p\<lparr>pk := Some (fresh_pk (polygons db))\<rparr>
              in Inr (p', db\<lparr>polygons := polygons db @ [p']\<rparr>))
         | Some k \<Rightarrow>
             if has_pk k (polygons db)
             then Inr (p, db\<lparr>polygons := map (\<lambda>q. if pk q = Some k then p else q) (polygons db)\<rparr>)
             else Inr (p, db\<lparr>polygons := polygons db @ [p]\<rparr>)))"

text \<open>\<open>annotation.save()\<close> (every field) and
  \<open>annotation.save(update_fields=('last_edit_time',))\<close> (that column only).\<close>

definition save_annotation :: "Annotation \<Rightarrow> 'c database \<Rightarrow> 'c database" where
  "save_annotation a db =
     db\<lparr>annotations := map (\<lambda>r. if anno_pk r = anno_pk a then a else r) (annotations db)\<rparr>"

definition save_annotation_last_edit_time :: "Annotation \<Rightarrow> 'c database \<Rightarrow> 'c database" where
  "save_annotation_last_edit_time a db =
     db\<lparr>annotations :=
          map (\<lambda>r. if anno_pk r = anno_pk a
                    then r\<lparr>anno_last_edit_time := anno_last_edit_time a\<rparr> else r)
              (annotations db)\<rparr>"

section \<open>get_annotation_xml\<close>

text \<open>\<open>polygons.filter(anno_index__isnull=False).update(anno_index=None)\<close> on the
  polygons of the annotation that are not deleted.\<close>

definition clear_indices :: "Annotation \<Rightarrow> 'c database \<Rightarrow> 'c database" where
  "clear_indices a db =
     db\<lparr>polygons :=
          map (\<lambda>p. if annotation p = anno_pk a \<and> deleted p = False \<and> anno_index p \<noteq> None
                    then p\<lparr>anno_index := None\<rparr> else p)
              (polygons db)\<rparr>"

fun xml_points :: "('c \<Rightarrow> string) \<Rightarrow> 'c list \<Rightarrow> (error + string list)" where
  "xml_points fmt2 [] = Inr []"
| "xml_points fmt2 [x] = Inl IndexError"
| "xml_points fmt2 (x # y # ps) =
     (case xml_points fmt2 ps of
        Inl e \<Rightarrow> Inl e
      | Inr rest \<Rightarrow>
          Inr ((''<pt><x>'' @ fmt2 x @ ''</x><y>'' @ fmt2 y @ ''</y></pt>'') # rest))"

text \<open>The strings appended for one polygon. \<open>xml_escape\<close> of a label that is \<open>None\<close>
  raises AttributeError.\<close>

definition xml_object :: "('c \<Rightarrow> string) \<Rightarrow> Annotation \<Rightarrow> 'c Polygon \<Rightarrow> error + string list" where
  "xml_object fmt2 a polygon =
     (case label_as_str polygon of
        None \<Rightarrow> Inl AttributeError
      | Some label \<Rightarrow>
          (case xml_points fmt2 (points polygon) of
             Inl e \<Rightarrow> Inl e
           | Inr pts \<Rightarrow>
               Inr ([''<object>'',
                     ''<c_poly_id>'' @ (case pk polygon of None \<Rightarrow> ''None'' | Some k \<Rightarrow> str_int k)
                        @ ''</c_poly_id>'',
                     ''<name>'' @ xml_escape label @ ''</name>'',
                     ''<deleted>0</deleted><verified>''
                        @ (if locked polygon \<or> anno_locked a then ''1'' else ''0'')
                        @ ''</verified>'',
                     ''<occluded>'' @ (if occluded polygon then ''yes'' else ''no'') @ ''</occluded>'',
                     ''<attributes>'' @ xml_escape (poly_notes polygon) @ ''</attributes>'',
                     ''<polygon><username>hi</username>'']
                    @ pts @ [''</polygon></object>''])))"

fun xml_objects :: "('c \<Rightarrow> string) \<Rightarrow> Annotation \<Rightarrow> 'c Polygon list \<Rightarrow> error + string list" where
  "xml_objects fmt2 a [] = Inr []"
| "xml_objects fmt2 a (p # ps) =
     (case xml_object fmt2 a p of
        Inl e \<Rightarrow> Inl e
      | Inr x \<Rightarrow> (case xml_objects fmt2 a ps of Inl e \<Rightarrow> Inl e | Inr xs \<Rightarrow> Inr (x @ xs)))"

text \<open>
  \<open>get_annotation_xml(request, image_id)\<close>. \<open>new_key\<close> is what
  \<open>secrets.token_bytes(16)\<close> returns. The result is the body of the response, or the
  exception that leaves the view, and the database after the call. There is no
  transaction: the writes made before an exception stay.

  When no image has the primary key, the local variable \<open>image\<close> is never bound, and
  the test \<open>image.visible is False\<close> that follows the handler raises UnboundLocalError.
\<close>

definition get_annotation_xml ::
  "('c \<Rightarrow> string) \<Rightarrow> byte list \<Rightarrow> user \<Rightarrow> int \<Rightarrow> 'c database \<Rightarrow> (error + string) \<times> 'c database" where
  "get_annotation_xml fmt2 new_key request_user image_id db =
     (case objects_get (\<lambda>i. image_pk i = image_id) (images db) of
        Inl MultipleObjectsReturned \<Rightarrow> (Inl MultipleObjectsReturned, db)
      | Inl e \<Rightarrow> (Inl UnboundLocalError, db)
      | Inr img \<Rightarrow>
          (case (if visible img = False then Inl DoesNotExist
                 else objects_get (\<lambda>a. annotator a = request_user \<and> anno_image a = image_pk img
                                        \<and> anno_deleted a = False) (annotations db)) of
             Inl MultipleObjectsReturned \<Rightarrow> (Inl MultipleObjectsReturned, db)
           | Inl e \<Rightarrow> (Inl (Http404 ''Annotation does not exist.''), db)
           | Inr a0 \<Rightarrow>
               (let a = a0\<lparr>edit_key := new_key\<rparr>;
                    db1 = save_annotation a db;
                    db2 = clear_indices a db1
                in (case xml_objects fmt2 a (visible_polygons a db2) of
                      Inl e \<Rightarrow> (Inl e, db2)
                    | Inr objs \<Rightarrow>
                        (Inr (concat ([''<annotation>'',
                                       ''<c_anno_id>'' @ str_int (anno_pk a) @ ''</c_anno_id>'',
                                       ''<edit_key>'' @ bytes_hex new_key @ ''</edit_key>'',
                                       ''<filename>img'' @ str_int image_id
                                          @ ''.jpg</filename><folder>f</folder>'']
                                      @ objs @ [''</annotation>''])),
                         db2)))))"

section \<open>process_annotation_xml\<close>

subsection \<open>Reading the document\<close>

text \<open>The image the document names: the first \<open>try\<close> block. \<open>None\<close> stands for every
  exception the block catches.\<close>

definition lookup_image :: "element \<Rightarrow> 'c database \<Rightarrow> Image option" where
  "lookup_image root db =
     (case find_text ''filename'' root of
        None \<Rightarrow> None
      | Some filename \<Rightarrow>
          if take 3 filename = ''img'' \<and> drop (length filename - 4) filename = ''.jpg''
          then (case int_of_str (drop 3 (take (length filename - 4) filename)) of
                  None \<Rightarrow> None
                | Some image_id \<Rightarrow>
                    (case objects_get (\<lambda>i. image_pk i = image_id) (images db) of
                       Inl e \<Rightarrow> None
                     | Inr img \<Rightarrow> if visible img then Some img else None))
          else None)"

text \<open>The annotation the import works on: the second \<open>try\<close> block. \<open>anno_id\<close> is read from
  the document and has to be an integer; the query does not use it.\<close>

definition lookup_annotation :: "user \<Rightarrow> element \<Rightarrow> Image \<Rightarrow> 'c database \<Rightarrow> Annotation option" where
  "lookup_annotation request_user root img db =
     (case Option.bind (find_text ''c_anno_id'' root) int_of_str of
        None \<Rightarrow> None
      | Some anno_id \<Rightarrow>
          (case objects_get (\<lambda>a. annotator a = request_user \<and> anno_image a = image_pk img
                                  \<and> anno_locked a = False \<and> anno_deleted a = False)
                            (annotations db) of
             Inl e \<Rightarrow> None
           | Inr a \<Rightarrow> if anno_deleted a then None else Some a))"

text \<open>\<open>bytes.fromhex(root.find("edit_key").text)\<close>.\<close>

definition document_edit_key :: "element \<Rightarrow> byte list option" where
  "document_edit_key root = Option.bind (find_text ''edit_key'' root) bytes_fromhex"

text \<open>\<open>anno_polygon\<close>, the namespace the source fills for each \<open>object\<close> element.\<close>

record 'c anno_polygon =
  ap_id :: "int option"
  ap_index :: nat
  ap_name :: "string option"
  ap_deleted :: bool
  ap_occluded :: bool
  ap_attributes :: string
  ap_points :: "'c list"

fun parse_points :: "(string \<Rightarrow> 'c option) \<Rightarrow> element list \<Rightarrow> 'c list option" where
  "parse_points round2 [] = Some []"
| "parse_points round2 (point_tag # pts) =
     (case Option.bind (find_text ''x'' point_tag) round2 of
        None \<Rightarrow> None
      | Some x \<Rightarrow>
          (case Option.bind (find_text ''y'' point_tag) round2 of
             None \<Rightarrow> None
           | Some y \<Rightarrow>
               (case parse_points round2 pts of
                  None \<Rightarrow> None
                | Some rest \<Rightarrow> Some (x # y # rest))))"

text \<open>The \<open>c_poly_id\<close> of an object: \<open>None\<close> is an exception, \<open>Some None\<close> an object
  without the tag.\<close>

definition parse_id :: "int list \<Rightarrow> element \<Rightarrow> int option option" where
  "parse_id anno_poly_ids obj_tag =
     (case find_el ''c_poly_id'' obj_tag of
        None \<Rightarrow> Some None
      | Some t \<Rightarrow>
          (case Option.bind (el_text t) int_of_str of
             None \<Rightarrow> None
           | Some i \<Rightarrow> if i \<in> set anno_poly_ids then None else Some (Some i)))"

text \<open>The body of the loop over the \<open>object\<close> elements: \<open>None\<close> stands for every
  exception its \<open>try\<close> block catches. The name is the text of the \<open>name\<close> element as
  ElementTree gives it, and only the empty string is refused.\<close>

definition parse_object ::
  "(string \<Rightarrow> 'c option) \<Rightarrow> int list \<Rightarrow> nat \<Rightarrow> element \<Rightarrow> 'c anno_polygon option" where
  "parse_object round2 anno_poly_ids curr_index obj_tag =
     (case parse_id anno_poly_ids obj_tag of
        None \<Rightarrow> None
      | Some ident \<Rightarrow>
     (case find_el ''name'' obj_tag of
        None \<Rightarrow> None
      | Some name_tag \<Rightarrow>
     (if el_text name_tag = Some [] then None else
     (case Option.bind (find_text ''deleted'' obj_tag) int_of_str of
        None \<Rightarrow> None
      | Some del \<Rightarrow>
     (if del \<in> set [0, 1] then
     (case find_text ''occluded'' obj_tag of
        None \<Rightarrow> None
      | Some occ \<Rightarrow>
     (if occ \<in> set [''no'', ''yes''] then
     (case Option.bind (find_el ''polygon'' obj_tag)
             (\<lambda>t. parse_points round2 (findall ''pt'' t)) of
        None \<Rightarrow> None
      | Some pts \<Rightarrow>
          Some \<lparr>ap_id = ident, ap_index = curr_index, ap_name = el_text name_tag,
                ap_deleted = (if del = 0 then False else True),
                ap_occluded = (if occ = ''no'' then False else True),
                ap_attributes =
                  (case find_text ''attributes'' obj_tag of None \<Rightarrow> [] | Some t \<Rightarrow> t),
                ap_points = pts\<rparr>)
     else None))
     else None)))))"

fun parse_objects ::
  "(string \<Rightarrow> 'c option) \<Rightarrow> int list \<Rightarrow> nat \<Rightarrow> element list \<Rightarrow> 'c anno_polygon list option" where
  "parse_objects round2 anno_poly_ids curr_index [] = Some []"
| "parse_objects round2 anno_poly_ids curr_index (obj_tag # objs) =
     (case parse_object round2 anno_poly_ids curr_index obj_tag of
        None \<Rightarrow> None
      | Some ap \<Rightarrow>
          (case parse_objects round2
                  (case ap_id ap of None \<Rightarrow> anno_poly_ids | Some i \<Rightarrow> i # anno_poly_ids)
                  (Suc curr_index) objs of
             None \<Rightarrow> None
           | Some aps \<Rightarrow> Some (ap # aps)))"

subsection \<open>The polygons loaded before the transaction\<close>

text \<open>
  \<open>polygons_by_id\<close> is a Python dict: an association list in insertion order, where
  writing to a key that is present replaces its value in place. The instances it holds
  are shared with \<open>polygons_by_index\<close>, and the loop below assigns to their fields, so
  \<open>polygons_by_index\<close> maps an index to the key under which \<open>polygons_by_id\<close> holds the
  instance.
\<close>

definition polygons_by_id :: "'c Polygon list \<Rightarrow> (int option \<times> 'c Polygon) list" where
  "polygons_by_id ps = fold (\<lambda>p d. AList.update (pk p) p d) ps []"

definition polygons_by_index :: "(int option \<times> 'c Polygon) list \<Rightarrow> (nat \<times> int option) list" where
  "polygons_by_index by_id =
     fold (\<lambda>kp d. case anno_index (snd kp) of None \<Rightarrow> d | Some i \<Rightarrow> AList.update i (fst kp) d)
          by_id []"

text \<open>Modelled from the spec: \<open>models.Polygon(annotation=annotation, anno_index=i)\<close>, an
  instance that is not saved yet. The defaults of the other fields are those of the
  missing model class; the loop overwrites all of them but \<open>locked\<close> before it saves.\<close>

definition new_polygon :: "Annotation \<Rightarrow> nat \<Rightarrow> 'c Polygon" where
  "new_polygon a i =
     \<lparr>pk = None, annotation = anno_pk a, anno_index = Some i, label_as_str = None,
      poly_notes = [], occluded = False, points = [], deleted = False, locked = False,
      last_edit_time = 0\<rparr>"

text \<open>The instance an \<open>anno_polygon\<close> is about, and whether it is new:
  \<open>Inl KeyError\<close> is the \<open>raise\<close>, \<open>Inr None\<close> the \<open>continue\<close>.\<close>

definition find_polygon ::
  "Annotation \<Rightarrow> (int option \<times> 'c Polygon) list \<Rightarrow> (nat \<times> int option) list \<Rightarrow> 'c anno_polygon
     \<Rightarrow> error + ('c Polygon \<times> bool) option" where
  "find_polygon a by_id by_index anno_poly =
     (case ap_id anno_poly of
        Some i \<Rightarrow>
          (case map_of by_id (Some i) of
             Some poly \<Rightarrow> Inr (Some (poly, False))
           | None \<Rightarrow> if ap_deleted anno_poly then Inr None else Inl KeyError)
      | None \<Rightarrow>
          (case Option.bind (map_of by_index (ap_index anno_poly)) (map_of by_id) of
             Some poly \<Rightarrow> Inr (Some (poly, False))
           | None \<Rightarrow>
               if ap_deleted anno_poly then Inr None
               else Inr (Some (new_polygon a (ap_index anno_poly), True))))"

subsection \<open>The transaction\<close>

text \<open>The state of the loop: \<open>annotation_changed\<close>, the loaded instances, the database.\<close>

type_synonym 'c loop_state = "bool \<times> (int option \<times> 'c Polygon) list \<times> 'c database"

definition update_polygon ::
  "bool \<Rightarrow> datetime \<Rightarrow> Annotation \<Rightarrow> (nat \<times> int option) list \<Rightarrow> 'c anno_polygon
     \<Rightarrow> 'c loop_state \<Rightarrow> (error + unit) \<times> 'c loop_state" where
  "update_polygon null_ok now a by_index anno_poly st =
     (case st of (annotation_changed, by_id, db) \<Rightarrow>
        (case find_polygon a by_id by_index anno_poly of
           Inl e \<Rightarrow> (Inl e, st)
         | Inr None \<Rightarrow> (Inr (), st)
         | Inr (Some (poly, is_new)) \<Rightarrow>
             (let polygon_changed =
                    (if is_new then True
                     else if label_as_str poly \<noteq> ap_name anno_poly then True
                     else if poly_notes poly \<noteq> ap_attributes anno_poly then True
                     else if occluded poly \<noteq> ap_occluded anno_poly then True
                     else if points poly \<noteq> ap_points anno_poly then True
                     else if deleted poly \<noteq> ap_deleted anno_poly then True
                     else False)
              in if polygon_changed then
                   (case save_polygon null_ok
                           (poly\<lparr>label_as_str := ap_name anno_poly,
                                 poly_notes := ap_attributes anno_poly,
                                 occluded := ap_occluded anno_poly,
                                 points := ap_points anno_poly,
                                 deleted := ap_deleted anno_poly,
                                 last_edit_time := now\<rparr>) db of
                      Inl e \<Rightarrow> (Inl e, st)
                    | Inr (poly', db') \<Rightarrow>
                        (Inr (),
                         (True,
                          if is_new then by_id else AList.update (pk poly') poly' by_id,
                          db')))
                 else (Inr (), st))))"

fun update_polygons ::
  "bool \<Rightarrow> datetime \<Rightarrow> Annotation \<Rightarrow> (nat \<times> int option) list \<Rightarrow> 'c anno_polygon list
     \<Rightarrow> 'c loop_state \<Rightarrow> (error + unit) \<times> 'c loop_state" where
  "update_polygons null_ok now a by_index [] st = (Inr (), st)"
| "update_polygons null_ok now a by_index (anno_poly # aps) st =
     (case update_polygon null_ok now a by_index anno_poly st of
        (Inl e, st') \<Rightarrow> (Inl e, st')
      | (Inr u, st') \<Rightarrow> update_polygons null_ok now a by_index aps st')"

text \<open>The body of \<open>with transaction.atomic()\<close>, run on the database as it is when the
  lock on the annotation is taken. On an exception it returns the database with the
  writes made so far.\<close>

definition transaction_body ::
  "bool \<Rightarrow> datetime \<Rightarrow> Annotation \<Rightarrow> byte list \<Rightarrow> 'c anno_polygon list
     \<Rightarrow> (int option \<times> 'c Polygon) list \<Rightarrow> (nat \<times> int option) list
     \<Rightarrow> 'c database \<Rightarrow> (error + unit) \<times> 'c database" where
  "transaction_body null_ok now annotation0 key anno_polygons by_id by_index db =
     (case objects_get (\<lambda>r. anno_pk r = anno_pk annotation0) (annotations db) of
        Inl e \<Rightarrow> (Inl e, db)
      | Inr a \<Rightarrow>
          if key \<noteq> edit_key a then (Inl (SuspiciousOperation ''invalid edit key''), db)
          else
            (case update_polygons null_ok now a by_index anno_polygons (False, by_id, db) of
               (Inl e, st) \<Rightarrow> (Inl e, snd (snd st))
             | (Inr u, st) \<Rightarrow>
                 if fst st
                 then (Inr (), save_annotation_last_edit_time (a\<lparr>anno_last_edit_time := now\<rparr>)
                                 (snd (snd st)))
                 else (Inr (), snd (snd st))))"

text \<open>\<open>transaction.atomic()\<close>: an exception that leaves the block rolls the database back
  to what it was when the block was entered.\<close>

definition atomic :: "('d \<Rightarrow> (error + 'a) \<times> 'd) \<Rightarrow> 'd \<Rightarrow> (error + 'a) \<times> 'd" where
  "atomic body db = (case body db of (Inl e, db') \<Rightarrow> (Inl e, db) | (Inr r, db') \<Rightarrow> (Inr r, db'))"

text \<open>
  \<open>process_annotation_xml(request, root)\<close>. Everything before the transaction reads
  \<open>db\<close>; the transaction runs on \<open>db_locked\<close>, the database at the moment the lock is
  taken (the same database when no other request came in between). The result is the
  exception that leaves the function, if any, and the database afterwards.
\<close>

definition process_annotation_xml ::
  "bool \<Rightarrow> (string \<Rightarrow> 'c option) \<Rightarrow> datetime \<Rightarrow> user \<Rightarrow> element \<Rightarrow> 'c database \<Rightarrow> 'c database
     \<Rightarrow> (error + unit) \<times> 'c database" where
  "process_annotation_xml null_ok round2 now request_user root db db_locked =
     (if el_tag root \<noteq> ''annotation''
      then (Inl (SuspiciousOperation ''not an annotation''), db_locked)
      else
     (case lookup_image root db of
        None \<Rightarrow> (Inl (SuspiciousOperation ''invalid image''), db_locked)
      | Some img \<Rightarrow>
     (case lookup_annotation request_user root img db of
        None \<Rightarrow> (Inl (SuspiciousOperation ''invalid anno id''), db_locked)
      | Some a \<Rightarrow>
     (case document_edit_key root of
        None \<Rightarrow> (Inl (SuspiciousOperation ''invalid edit key''), db_locked)
      | Some key \<Rightarrow>
     if key \<noteq> edit_key a
     then (Inl (SuspiciousOperation ''invalid edit key''), db_locked)
     else
     (case parse_objects round2 [] 0 (findall ''object'' root) of
        None \<Rightarrow> (Inl (SuspiciousOperation ''invalid polygon''), db_locked)
      | Some anno_polygons \<Rightarrow>
          (let by_id = polygons_by_id (visible_polygons a db);
               by_index = polygons_by_index by_id
           in atomic (transaction_body null_ok now a key anno_polygons by_id by_index)
                     db_locked))))))"

text \<open>\<open>parse_annotation_xml(request)\<close>: \<open>xml\<close> is the tree \<open>defusedxml\<close> builds from the
  body of the request, \<open>None\<close> when it raises. An exception of
  \<open>process_annotation_xml\<close> that is not a SuspiciousOperation becomes one.\<close>

definition parse_annotation_xml ::
  "bool \<Rightarrow> (string \<Rightarrow> 'c option) \<Rightarrow> datetime \<Rightarrow> user \<Rightarrow> element option \<Rightarrow> 'c database
     \<Rightarrow> 'c database \<Rightarrow> (error + unit) \<times> 'c database" where
  "parse_annotation_xml null_ok round2 now request_user xml db db_locked =
     (case xml of
        None \<Rightarrow> (Inl (SuspiciousOperation ''xml parse failed''), db_locked)
      | Some root \<Rightarrow>
          (case process_annotation_xml null_ok round2 now request_user root db db_locked of
             (Inl (SuspiciousOperation m), db') \<Rightarrow> (Inl (SuspiciousOperation m), db')
           | (Inl e, db') \<Rightarrow> (Inl (SuspiciousOperation ''xml process failed''), db')
           | (Inr u, db') \<Rightarrow> (Inr u, db')))"

text \<open>\<open>post_annotation_xml(request)\<close>: the fixed response, or the exception.\<close>

definition post_annotation_xml ::
  "bool \<Rightarrow> (string \<Rightarrow> 'c option) \<Rightarrow> datetime \<Rightarrow> user \<Rightarrow> element option \<Rightarrow> 'c database
     \<Rightarrow> 'c database \<Rightarrow> (error + string) \<times> 'c database" where
  "post_annotation_xml null_ok round2 now request_user xml db db_locked =
     (case parse_annotation_xml null_ok round2 now request_user xml db db_locked of
        (Inl e, db') \<Rightarrow> (Inl e, db')
      | (Inr u, db') \<Rightarrow> (Inr ''<nop/>'', db'))"

section \<open>An example database and example documents\<close>

text \<open>User 1 has annotation 5 of image 7, with one polygon and the edit key \<open>ab\<close>.\<close>

definition ex_image :: Image where
  "ex_image = \<lparr>image_pk = 7, visible = True\<rparr>"

definition ex_annotation :: Annotation where
  "ex_annotation =
     \<lparr>anno_pk = 5, annotator = 1, anno_image = 7, anno_locked = False, anno_deleted = False,
      edit_key = [171], anno_last_edit_time = 0\<rparr>"

definition ex_polygon :: "nat Polygon" where
  "ex_polygon =
     \<lparr>pk = Some 10, annotation = 5, anno_index = None, label_as_str = Some ''cat'',
      poly_notes = [], occluded = False, points = [], deleted = False, locked = False,
      last_edit_time = 0\<rparr>"

definition ex_db :: "nat database" where
  "ex_db = \<lparr>images = [ex_image], annotations = [ex_annotation], polygons = [ex_polygon]\<rparr>"

definition leaf :: "string \<Rightarrow> string \<Rightarrow> element" where
  "leaf t s = Element t (Some s) []"

text \<open>An \<open>object\<close> element without points: \<open>ident\<close> holds its \<open>c_poly_id\<close> element, if
  any, \<open>name_tag\<close> is its \<open>name\<close> element and \<open>d\<close> the text of \<open>deleted\<close>.\<close>

definition ex_object :: "element list \<Rightarrow> element \<Rightarrow> string \<Rightarrow> element" where
  "ex_object ident name_tag d =
     Element ''object'' None
       (ident @ [name_tag, leaf ''deleted'' d, leaf ''occluded'' ''no'', Element ''polygon'' None []])"

text \<open>A document for image 7 with the annotation id \<open>aid\<close> and the edit key \<open>k\<close>.\<close>

definition ex_document :: "string \<Rightarrow> string \<Rightarrow> element list \<Rightarrow> element" where
  "ex_document aid k objs =
     Element ''annotation'' None
       ([leaf ''c_anno_id'' aid, leaf ''edit_key'' k, leaf ''filename'' ''img7.jpg''] @ objs)"

text \<open>No coordinate text is read in the examples.\<close>

definition ex_round2 :: "string \<Rightarrow> nat option" where
  "ex_round2 s = None"



text \<open>The example database after an export that set the edit key \<open>0102\<close>, and a
  document that still carries the key \<open>ab\<close> of the export before.\<close>

definition ex_fmt2 :: "nat \<Rightarrow> string" where
  "ex_fmt2 c = ''0.00''"

definition ex_db_exported :: "nat database" where
  "ex_db_exported = snd (get_annotation_xml ex_fmt2 [1, 2] 1 7 ex_db)"

definition ex_stale_document :: element where
  "ex_stale_document =
     ex_document ''5'' ''ab'' [ex_object [leaf ''c_poly_id'' ''10''] (leaf ''name'' ''lion'') ''0'']"









text \<open>The session on the example database: the export with the new key \<open>0102\<close>, an
  import that appends \<open>dog\<close>, and a second import that renames it to \<open>wolf\<close>.\<close>

definition ex_export_body :: string where
  "ex_export_body =
     ''<annotation><c_anno_id>5</c_anno_id><edit_key>0102</edit_key>''
     @ ''<filename>img7.jpg</filename><folder>f</folder>''
     @ ''<object><c_poly_id>10</c_poly_id><name>cat</name>''
     @ ''<deleted>0</deleted><verified>0</verified><occluded>no</occluded>''
     @ ''<attributes></attributes><polygon><username>hi</username></polygon></object>''
     @ ''</annotation>''"

definition ex_first_document :: element where
  "ex_first_document =
     ex_document ''5'' ''0102''
       [ex_object [leaf ''c_poly_id'' ''10''] (leaf ''name'' ''cat'') ''0'',
        ex_object [] (leaf ''name'' ''dog'') ''0'']"

definition ex_second_document :: element where
  "ex_second_document =
     ex_document ''5'' ''0102''
       [ex_object [leaf ''c_poly_id'' ''10''] (leaf ''name'' ''cat'') ''0'',
        ex_object [] (leaf ''name'' ''wolf'') ''0'']"

definition ex_db_first :: "nat database" where
  "ex_db_first =
     snd (process_annotation_xml False ex_round2 3 1 ex_first_document ex_db_exported ex_db_exported)"

definition ex_db_second :: "nat database" where
  "ex_db_second =
     snd (process_annotation_xml False ex_round2 4 1 ex_second_document ex_db_first ex_db_first)"

definition ex_ap_cat :: "nat anno_polygon" where
  "ex_ap_cat =
     \<lparr>ap_id = Some 10, ap_index = 0, ap_name = Some ''cat'', ap_deleted = False,
      ap_occluded = False, ap_attributes = [], ap_points = []\<rparr>"

definition ex_ap_new :: "string \<Rightarrow> nat anno_polygon" where
  "ex_ap_new l =
     \<lparr>ap_id = None, ap_index = 1, ap_name = Some l, ap_deleted = False,
      ap_occluded = False, ap_attributes = [], ap_points = []\<rparr>"

section \<open>Predicates for the invariants of the import\<close>

text \<open>
  \<open>edited\<close> is the assignment of the six fields the loop makes before it saves;
  \<open>only_edited q q'\<close> says that \<open>q'\<close> is \<open>q\<close> but for these six fields. \<open>frame_ok\<close> relates
  the database the transaction started on to the database the loop has reached, and
  \<open>loaded_ok\<close> says that the loaded instances are rows of that database.
\<close>

definition edited :: "datetime \<Rightarrow> 'c anno_polygon \<Rightarrow> 'c Polygon \<Rightarrow> 'c Polygon" where
  "edited now anno_poly poly =
     poly\<lparr>label_as_str := ap_name anno_poly, poly_notes := ap_attributes anno_poly,
          occluded := ap_occluded anno_poly, points := ap_points anno_poly,
          deleted := ap_deleted anno_poly, last_edit_time := now\<rparr>"

definition only_edited :: "'c Polygon \<Rightarrow> 'c Polygon \<Rightarrow> bool" where
  "only_edited q q' =
     (q' = q\<lparr>label_as_str := label_as_str q', poly_notes := poly_notes q',
              occluded := occluded q', points := points q', deleted := deleted q',
              last_edit_time := last_edit_time q'\<rparr>)"

definition frame_ok :: "Annotation \<Rightarrow> 'c database \<Rightarrow> 'c database \<Rightarrow> bool" where
  "frame_ok a db0 d =
     (images d = images db0 \<and> annotations d = annotations db0
      \<and> distinct (map pk (polygons d)) \<and> None \<notin> set (map pk (polygons d))
      \<and> length (polygons db0) \<le> length (polygons d)
      \<and> list_all2 (\<lambda>q q'. only_edited q q' \<and> (q \<notin> set (visible_polygons a db0) \<longrightarrow> q' = q))
           (polygons db0) (take (length (polygons db0)) (polygons d))
      \<and> (\<forall>c\<in>set (drop (length (polygons db0)) (polygons d)). annotation c = anno_pk a))"

definition loaded_ok ::
  "Annotation \<Rightarrow> 'c database \<Rightarrow> (int option \<times> 'c Polygon) list \<Rightarrow> 'c database \<Rightarrow> bool" where
  "loaded_ok a db0 by_id d =
     ((\<forall>k p. map_of by_id k = Some p \<longrightarrow>
               p \<in> set (polygons d) \<and> pk p = k \<and> annotation p = anno_pk a)
      \<and> dom (map_of by_id) = pk ` set (visible_polygons a db0))"

section \<open>Atomicity of the import\<close>

lemma process_error_unchanged:
  "process_annotation_xml null_ok round2 now u root db db_locked = (Inl e, db') \<Longrightarrow> db' = db_locked"
  by (auto simp: process_annotation_xml_def atomic_def Let_def
           split: option.splits if_splits prod.splits sum.splits)

text \<open>
  The loop writes as it goes: on the example, the body of the transaction has inserted
  a polygon when the second object raises KeyError.
\<close>

lemma transaction_body_partial_write:
  "transaction_body False 3 ex_annotation [171]
     [\<lparr>ap_id = None, ap_index = 0, ap_name = Some ''dog'', ap_deleted = False,
       ap_occluded = False, ap_attributes = [], ap_points = []\<rparr>,
      \<lparr>ap_id = Some 99, ap_index = 1, ap_name = Some ''cow'', ap_deleted = False,
       ap_occluded = False, ap_attributes = [], ap_points = []\<rparr>]
     (polygons_by_id (visible_polygons ex_annotation ex_db)) [] ex_db
   = (Inl KeyError,
      ex_db\<lparr>polygons := [ex_polygon,
         \<lparr>pk = Some 11, annotation = 5, anno_index = Some 0, label_as_str = Some ''dog'',
          poly_notes = [], occluded = False, points = [], deleted = False, locked = False,
          last_edit_time = 3\<rparr>]\<rparr>)"
  by code_simp

text \<open>
  C1. Whenever an import ends in an error (the document does not parse, a check of the
  validation fails, the edit key read under the lock differs, or the loop over the
  polygons raises), the database after the request is the database the transaction
  started on: no polygon and no annotation is written.
\<close>

theorem import_all_or_nothing:
  assumes "fst (post_annotation_xml null_ok round2 now u xml db db_locked) = Inl e"
  shows "snd (post_annotation_xml null_ok round2 now u xml db db_locked) = db_locked"
  using assms
  by (auto simp: post_annotation_xml_def parse_annotation_xml_def
           split: option.splits prod.splits sum.splits error.splits
           dest: process_error_unchanged)

lemma ex_import_key_error:
  "fst (post_annotation_xml False ex_round2 3 1
          (Some (ex_document ''5'' ''ab''
                   [ex_object [] (leaf ''name'' ''dog'') ''0'',
                    ex_object [leaf ''c_poly_id'' ''99''] (leaf ''name'' ''cow'') ''0'']))
          ex_db ex_db)
   = Inl (SuspiciousOperation ''xml process failed'')"
  by code_simp

theorem import_all_or_nothing_witness:
  "fst (post_annotation_xml False ex_round2 3 1
          (Some (ex_document ''5'' ''ab''
                   [ex_object [] (leaf ''name'' ''dog'') ''0'',
                    ex_object [leaf ''c_poly_id'' ''99''] (leaf ''name'' ''cow'') ''0'']))
          ex_db ex_db)
   = Inl (SuspiciousOperation ''xml process failed'')
   \<and> snd (post_annotation_xml False ex_round2 3 1
          (Some (ex_document ''5'' ''ab''
                   [ex_object [] (leaf ''name'' ''dog'') ''0'',
                    ex_object [leaf ''c_poly_id'' ''99''] (leaf ''name'' ''cow'') ''0'']))
          ex_db ex_db)
   = ex_db"
  using ex_import_key_error import_all_or_nothing [OF ex_import_key_error]
  by simp

section \<open>The annotation id of the document\<close>

text \<open>
  C3. The document's \<open>c_anno_id\<close> is meant to designate the annotation the import works
  on. The query of \<open>process_annotation_xml\<close> does not use it: a document for image 7 that
  names annotation 999, which does not exist, is accepted, and its polygon is stored
  under annotation 5, the annotation of the requester for image 7.
\<close>

theorem anno_id_of_document_not_used:
  "process_annotation_xml False ex_round2 3 1
     (ex_document ''999'' ''ab'' [ex_object [] (leaf ''name'' ''dog'') ''0'']) ex_db ex_db
   = (Inr (),
      \<lparr>images = [ex_image],
       annotations = [ex_annotation\<lparr>anno_last_edit_time := 3\<rparr>],
       polygons = [ex_polygon,
         \<lparr>pk = Some 11, annotation = 5, anno_index = Some 0, label_as_str = Some ''dog'',
          poly_notes = [], occluded = False, points = [], deleted = False, locked = False,
          last_edit_time = 3\<rparr>]\<rparr>)"
  by code_simp

section \<open>Export of an image that does not exist\<close>

text \<open>
  C6. For an image id that no image has, the export is meant to end in Http404. The
  view sets \<open>exists = False\<close> in the handler and then reads \<open>image.visible\<close>, a variable
  that was never bound: the request ends in UnboundLocalError instead.
\<close>

theorem export_of_missing_image:
  "get_annotation_xml fmt2 new_key u 8 ex_db = (Inl UnboundLocalError, ex_db)"
  by (simp add: get_annotation_xml_def objects_get_def ex_db_def ex_image_def)

section \<open>The empty name\<close>

text \<open>
  C7. An object whose \<open>name\<close> element has no text should make the import fail. The text
  of such an element is \<open>None\<close>, which the comparison with the empty string lets through:
  when the object is marked deleted and matches nothing, the import is accepted; when
  it is not marked deleted, and the label column accepts NULL, a polygon without label
  is stored.
\<close>

theorem empty_name_not_refused:
  "post_annotation_xml null_ok ex_round2 3 1
     (Some (ex_document ''5'' ''ab'' [ex_object [] (Element ''name'' None []) ''1'']))
     ex_db ex_db
   = (Inr ''<nop/>'', ex_db)
   \<and> post_annotation_xml True ex_round2 3 1
     (Some (ex_document ''5'' ''ab'' [ex_object [] (Element ''name'' None []) ''0'']))
     ex_db ex_db
   = (Inr ''<nop/>'',
      \<lparr>images = [ex_image],
       annotations = [ex_annotation\<lparr>anno_last_edit_time := 3\<rparr>],
       polygons = [ex_polygon,
         \<lparr>pk = Some 11, annotation = 5, anno_index = Some 0, label_as_str = None,
          poly_notes = [], occluded = False, points = [], deleted = False, locked = False,
          last_edit_time = 3\<rparr>]\<rparr>)"
  by code_simp

section \<open>Identity before position\<close>






section \<open>The stale edit key\<close>

text \<open>
  C2. Once the document has passed the checks that come before (root tag, image,
  annotation), an edit key that is not the key the annotation holds ends the import
  with SuspiciousOperation "invalid edit key" and leaves the database as it was. That
  holds for the key read before the transaction and, when the objects are valid, for
  the key read again under the lock; a missing or malformed key counts as different.
\<close>

theorem stale_edit_key_rejected:
  assumes "el_tag root = ''annotation''"
      and "lookup_image root db = Some img"
      and "lookup_annotation u root img db = Some a"
      and "document_edit_key root \<noteq> Some (edit_key a) \<or>
           (parse_objects round2 [] 0 (findall ''object'' root) \<noteq> None \<and>
            (\<exists>a'. objects_get (\<lambda>r. anno_pk r = anno_pk a) (annotations db_locked) = Inr a'
                  \<and> document_edit_key root \<noteq> Some (edit_key a')))"
  shows "process_annotation_xml null_ok round2 now u root db db_locked
           = (Inl (SuspiciousOperation ''invalid edit key''), db_locked)"
  using assms
  by (auto simp: process_annotation_xml_def atomic_def transaction_body_def Let_def
           split: option.splits)

lemma ex_stale_checks:
  "el_tag ex_stale_document = ''annotation''
   \<and> lookup_image ex_stale_document ex_db_exported = Some ex_image
   \<and> lookup_annotation 1 ex_stale_document ex_image ex_db_exported
        = Some (ex_annotation\<lparr>edit_key := [1, 2]\<rparr>)
   \<and> document_edit_key ex_stale_document = Some [171]
   \<and> lookup_image ex_stale_document ex_db = Some ex_image
   \<and> lookup_annotation 1 ex_stale_document ex_image ex_db = Some ex_annotation
   \<and> parse_objects ex_round2 [] 0 (findall ''object'' ex_stale_document) \<noteq> None
   \<and> objects_get (\<lambda>r. anno_pk r = anno_pk ex_annotation) (annotations ex_db_exported)
        = Inr (ex_annotation\<lparr>edit_key := [1, 2]\<rparr>)"
  by code_simp

theorem stale_edit_key_rejected_witness:
  "process_annotation_xml False ex_round2 3 1 ex_stale_document ex_db_exported ex_db_exported
     = (Inl (SuspiciousOperation ''invalid edit key''), ex_db_exported)
   \<and> process_annotation_xml False ex_round2 3 1 ex_stale_document ex_db ex_db_exported
     = (Inl (SuspiciousOperation ''invalid edit key''), ex_db_exported)"
proof -
  have k: "[171] \<noteq> ([1, 2] :: byte list)"
    by simp
  have 1: "process_annotation_xml False ex_round2 3 1 ex_stale_document ex_db_exported
             ex_db_exported
           = (Inl (SuspiciousOperation ''invalid edit key''), ex_db_exported)"
    using ex_stale_checks k
    by (intro stale_edit_key_rejected [where img = ex_image
          and a = "ex_annotation\<lparr>edit_key := [1, 2]\<rparr>"]) simp_all
  have 2: "process_annotation_xml False ex_round2 3 1 ex_stale_document ex_db ex_db_exported
           = (Inl (SuspiciousOperation ''invalid edit key''), ex_db_exported)"
    using ex_stale_checks k
    by (intro stale_edit_key_rejected [where img = ex_image and a = ex_annotation]) simp_all
  show ?thesis
    using 1 2 by simp
qed

section \<open>What the loop over the polygons preserves\<close>

text \<open>
  The lemmas of this section are about an import that no other request interleaves
  with (\<open>db_locked = db\<close>), on a table of polygons whose primary keys are distinct and
  not NULL.
\<close>

lemma fold_max_ge: "m \<le> fold (\<lambda>p m. case pk p of None \<Rightarrow> m | Some k \<Rightarrow> max k m) ps (m::int)"
proof (induction ps arbitrary: m)
  case Nil
  then show ?case by simp
next
  case (Cons p ps)
  show ?case
  proof (cases "pk p")
    case None
    then show ?thesis using Cons.IH [of m] by simp
  next
    case (Some k)
    then show ?thesis using Cons.IH [of "max k m"] by simp
  qed
qed

lemma fold_max_pk: "Some k \<in> set (map pk ps) \<Longrightarrow> k \<le> fold (\<lambda>p m. case pk p of None \<Rightarrow> m | Some k \<Rightarrow> max k m) ps (m::int)"
proof (induction ps arbitrary: m)
  case Nil
  then show ?case by simp
next
  case (Cons p ps)
  show ?case
  proof (cases "pk p = Some k")
    case True
    then show ?thesis using fold_max_ge [of "max k m" ps] by simp
  next
    case False
    then have "Some k \<in> set (map pk ps)" using Cons.prems by auto
    then show ?thesis using Cons.IH by (simp split: option.split)
  qed
qed

lemma fresh_pk_notin: "Some (fresh_pk ps) \<notin> set (map pk ps)"
proof
  assume "Some (fresh_pk ps) \<in> set (map pk ps)"
  then have "fresh_pk ps \<le> fold (\<lambda>p m. case pk p of None \<Rightarrow> m | Some k \<Rightarrow> max k m) ps 0"
    by (rule fold_max_pk)
  then show False by (simp add: fresh_pk_def)
qed

lemma objects_get_Inr: "objects_get P rows = Inr r \<Longrightarrow> P r \<and> r \<in> set rows"
proof -
  assume h: "objects_get P rows = Inr r"
  then have "filter P rows = [r]"
    by (auto simp: objects_get_def split: list.splits)
  then have "r \<in> set (filter P rows)" by simp
  then show ?thesis by simp
qed

lemma map_of_polygons_by_id_aux:
  assumes "\<forall>k p. map_of d k = Some p \<longrightarrow> p \<in> S \<and> pk p = k"
      and "set ps \<subseteq> S"
      and "map_of (fold (\<lambda>p d. AList.update (pk p) p d) ps d) k = Some p"
  shows "p \<in> S \<and> pk p = k"
  using assms
proof (induction ps arbitrary: d)
  case Nil
  then show ?case by simp
next
  case (Cons q ps)
  have q: "q \<in> S" using Cons.prems(2) by simp
  have inv: "\<forall>k p. map_of (AList.update (pk q) q d) k = Some p \<longrightarrow> p \<in> S \<and> pk p = k"
  proof (intro allI impI)
    fix k' p'
    assume "map_of (AList.update (pk q) q d) k' = Some p'"
    then have h: "((map_of d)(pk q \<mapsto> q)) k' = Some p'"
      by (simp only: update_conv')
    show "p' \<in> S \<and> pk p' = k'"
    proof (cases "k' = pk q")
      case True
      then show ?thesis using h q by simp
    next
      case False
      then have "map_of d k' = Some p'" using h by simp
      then show ?thesis using Cons.prems(1) by blast
    qed
  qed
  have sub: "set ps \<subseteq> S" using Cons.prems(2) by simp
  have "map_of (fold (\<lambda>p d. AList.update (pk p) p d) ps (AList.update (pk q) q d)) k = Some p"
    using Cons.prems(3) by simp
  then show ?case by (rule Cons.IH [OF inv sub])
qed

lemma map_of_polygons_by_id:
  "map_of (polygons_by_id ps) k = Some p \<Longrightarrow> p \<in> set ps \<and> pk p = k"
  unfolding polygons_by_id_def
  by (rule map_of_polygons_by_id_aux [where d = "[]" and S = "set ps" and ps = ps]) simp_all

lemma dom_polygons_by_id_aux:
  "dom (map_of (fold (\<lambda>p d. AList.update (pk p) p d) ps d)) = dom (map_of d) \<union> pk ` set ps"
proof (induction ps arbitrary: d)
  case Nil
  then show ?case by simp
next
  case (Cons q ps)
  show ?case
    unfolding fold_simps Cons.IH [of "AList.update (pk q) q d"]
    by (simp add: update_conv')
qed

lemma dom_polygons_by_id: "dom (map_of (polygons_by_id ps)) = pk ` set ps"
  by (simp add: polygons_by_id_def dom_polygons_by_id_aux)

lemma only_edited_refl: "only_edited q q"
  by (simp add: only_edited_def)

lemma only_edited_edited: "only_edited q (edited now ap q)"
  by (simp add: only_edited_def edited_def)

lemma only_edited_iff:
  "only_edited q q' \<longleftrightarrow>
   pk q' = pk q \<and> annotation q' = annotation q \<and> anno_index q' = anno_index q \<and> locked q' = locked q"
proof
  assume "only_edited q q'"
  then have e: "q' = q\<lparr>label_as_str := label_as_str q', poly_notes := poly_notes q',
              occluded := occluded q', points := points q', deleted := deleted q',
              last_edit_time := last_edit_time q'\<rparr>"
    by (simp only: only_edited_def)
  have "pk q' = pk q" by (subst e) simp
  moreover have "annotation q' = annotation q" by (subst e) simp
  moreover have "anno_index q' = anno_index q" by (subst e) simp
  moreover have "locked q' = locked q" by (subst e) simp
  ultimately show "pk q' = pk q \<and> annotation q' = annotation q \<and> anno_index q' = anno_index q
     \<and> locked q' = locked q" by simp
next
  assume "pk q' = pk q \<and> annotation q' = annotation q \<and> anno_index q' = anno_index q
     \<and> locked q' = locked q"
  then show "only_edited q q'"
    unfolding only_edited_def by (intro Polygon.equality) simp_all
qed

lemma only_edited_trans: "only_edited q q' \<Longrightarrow> only_edited q' q'' \<Longrightarrow> only_edited q q''"
  by (simp add: only_edited_iff)

lemma visible_polygons_subset: "set (visible_polygons a db) \<subseteq> set (polygons db)"
  by (simp add: visible_polygons_def)

lemma visible_polygons_iff:
  "p \<in> set (visible_polygons a db) \<longleftrightarrow> p \<in> set (polygons db) \<and> annotation p = anno_pk a \<and> \<not> deleted p"
  by (auto simp: visible_polygons_def)

lemma frame_ok_refl:
  "distinct (map pk (polygons db0)) \<Longrightarrow> None \<notin> set (map pk (polygons db0)) \<Longrightarrow> frame_ok a db0 db0"
  by (simp add: frame_ok_def list_all2_same only_edited_refl)

lemma loaded_ok_init: "loaded_ok a db0 (polygons_by_id (visible_polygons a db0)) db0"
proof -
  have "\<forall>k p. map_of (polygons_by_id (visible_polygons a db0)) k = Some p \<longrightarrow>
               p \<in> set (polygons db0) \<and> pk p = k \<and> annotation p = anno_pk a"
  proof (intro allI impI)
    fix k p
    assume "map_of (polygons_by_id (visible_polygons a db0)) k = Some p"
    then have "p \<in> set (visible_polygons a db0) \<and> pk p = k"
      by (rule map_of_polygons_by_id)
    then show "p \<in> set (polygons db0) \<and> pk p = k \<and> annotation p = anno_pk a"
      by (simp add: visible_polygons_iff)
  qed
  then show ?thesis
    unfolding loaded_ok_def using dom_polygons_by_id [of "visible_polygons a db0"] by blast
qed

lemma edited_fields:
  "pk (edited now ap q) = pk q \<and> annotation (edited now ap q) = annotation q
   \<and> anno_index (edited now ap q) = anno_index q \<and> locked (edited now ap q) = locked q
   \<and> label_as_str (edited now ap q) = ap_name ap \<and> deleted (edited now ap q) = ap_deleted ap"
  by (simp add: edited_def)

lemma find_polygon_cases:
  assumes "find_polygon a by_id by_index ap = Inr (Some (poly, is_new))"
  shows "(is_new = False \<and> (\<exists>k. map_of by_id k = Some poly))
       \<or> (is_new = True \<and> poly = new_polygon a (ap_index ap) \<and> ap_id ap = None \<and> \<not> ap_deleted ap)"
proof (cases "ap_id ap")
  case None
  show ?thesis
  proof (cases "Option.bind (map_of by_index (ap_index ap)) (map_of by_id)")
    case n: None
    then show ?thesis using assms None
      by (simp add: find_polygon_def split: if_splits)
  next
    case (Some p)
    then have "poly = p \<and> is_new = False" using assms None
      by (simp add: find_polygon_def)
    moreover obtain k where "map_of by_id k = Some p"
      using Some by (auto simp: bind_eq_Some_conv)
    ultimately show ?thesis by blast
  qed
next
  case (Some i)
  then show ?thesis using assms
    by (auto simp: find_polygon_def split: option.splits if_splits)
qed

lemma update_polygon_result:
  assumes "update_polygon null_ok now a by_index ap (c, by_id, d) = (Inr u, st')"
  shows "st' = (c, by_id, d)
       \<or> (\<exists>k poly p' d'. map_of by_id k = Some poly
             \<and> save_polygon null_ok (edited now ap poly) d = Inr (p', d')
             \<and> st' = (True, AList.update (pk p') p' by_id, d'))
       \<or> (ap_id ap = None \<and> \<not> ap_deleted ap
           \<and> (\<exists>p' d'. save_polygon null_ok (edited now ap (new_polygon a (ap_index ap))) d = Inr (p', d')
                 \<and> st' = (True, by_id, d')))"
proof (cases "find_polygon a by_id by_index ap")
  case (Inl e)
  then show ?thesis using assms by (simp add: update_polygon_def)
next
  case (Inr r)
  show ?thesis
  proof (cases r)
    case None
    then show ?thesis using assms Inr by (simp add: update_polygon_def)
  next
    case (Some pr)
    obtain poly is_new where pr: "pr = (poly, is_new)" by (cases pr)
    have fp: "find_polygon a by_id by_index ap = Inr (Some (poly, is_new))"
      using Inr Some pr by simp
    note cs = find_polygon_cases [OF fp]
    show ?thesis
    proof (cases "save_polygon null_ok (edited now ap poly) d")
      case sl: (Inl e)
      then show ?thesis using assms fp
        by (simp add: update_polygon_def edited_def Let_def split: if_splits)
    next
      case sr: (Inr r')
      obtain p' d' where r': "r' = (p', d')" by (cases r')
      show ?thesis
      proof (cases is_new)
        case True
        then have st: "st' = (True, by_id, d')" using assms fp sr r'
          by (simp add: update_polygon_def edited_def Let_def)
        show ?thesis using cs True st sr r' by auto
      next
        case False
        then obtain k where k: "map_of by_id k = Some poly" using cs by auto
        have "st' = (c, by_id, d) \<or> st' = (True, AList.update (pk p') p' by_id, d')"
          using assms fp sr r' False
          by (simp add: update_polygon_def edited_def Let_def split: if_splits)
        then show ?thesis using k sr r' by blast
      qed
    qed
  qed
qed

lemma save_polygon_loaded:
  assumes "save_polygon null_ok p d = Inr (p', d')"
      and "pk p = Some k" and "Some k \<in> set (map pk (polygons d))"
  shows "p' = p \<and> d' = d\<lparr>polygons := map (\<lambda>q. if pk q = Some k then p else q) (polygons d)\<rparr>"
  using assms by (auto simp: save_polygon_def has_pk_def split: if_splits)

lemma save_polygon_fresh:
  assumes "save_polygon null_ok p d = Inr (p', d')" and "pk p = None"
  shows "p' = p\<lparr>pk := Some (fresh_pk (polygons d))\<rparr> \<and> d' = d\<lparr>polygons := polygons d @ [p']\<rparr>"
  using assms by (auto simp: save_polygon_def has_pk_def Let_def split: if_splits)

lemma loaded_okD:
  "loaded_ok a db0 by_id d \<Longrightarrow> map_of by_id k = Some p \<Longrightarrow>
   p \<in> set (polygons d) \<and> pk p = k \<and> annotation p = anno_pk a"
  unfolding loaded_ok_def by blast

lemma loaded_ok_dom:
  "loaded_ok a db0 by_id d \<Longrightarrow> dom (map_of by_id) = pk ` set (visible_polygons a db0)"
  unfolding loaded_ok_def by blast

lemma distinct_pk_eq:
  "distinct (map pk rows) \<Longrightarrow> x \<in> set rows \<Longrightarrow> y \<in> set rows \<Longrightarrow> pk x = pk y \<Longrightarrow> x = y"
  by (meson distinct_map inj_onD)

lemma replace_inv:
  assumes F: "frame_ok a db0 d" and L: "loaded_ok a db0 by_id d"
      and D0: "distinct (map pk (polygons db0))"
      and M: "map_of by_id k = Some poly"
  shows "frame_ok a db0 (d\<lparr>polygons := map (\<lambda>q. if pk q = k then edited now ap poly else q) (polygons d)\<rparr>)
       \<and> loaded_ok a db0 (AList.update k (edited now ap poly) by_id)
           (d\<lparr>polygons := map (\<lambda>q. if pk q = k then edited now ap poly else q) (polygons d)\<rparr>)"
proof -
  let ?e = "edited now ap poly"
  let ?g = "\<lambda>q. if pk q = k then ?e else q"
  let ?rows = "polygons d"
  let ?n = "length (polygons db0)"
  let ?V = "set (visible_polygons a db0)"
  have poly: "poly \<in> set ?rows" "pk poly = k" "annotation poly = anno_pk a"
    using loaded_okD [OF L M] by simp_all
  have e: "pk ?e = k" "annotation ?e = anno_pk a" "only_edited poly ?e"
    using poly by (simp_all add: edited_fields only_edited_edited)
  have dist: "distinct (map pk ?rows)" and nn: "None \<notin> set (map pk ?rows)"
    and len: "?n \<le> length ?rows"
    and rel: "list_all2 (\<lambda>q q'. only_edited q q' \<and> (q \<notin> ?V \<longrightarrow> q' = q)) (polygons db0) (take ?n ?rows)"
    and cr: "\<forall>c\<in>set (drop ?n ?rows). annotation c = anno_pk a"
    using F unfolding frame_ok_def by simp_all
  have pkg: "map pk (map ?g ?rows) = map pk ?rows"
    using e(1) by (simp add: comp_def cong: map_cong)
  have uniq: "q = poly" if "q \<in> set ?rows" "pk q = k" for q
    using distinct_pk_eq [OF dist that(1) poly(1)] that(2) poly(2) by simp
  have kdom: "k \<in> pk ` ?V"
    using M loaded_ok_dom [OF L] by blast
  then obtain v where v: "v \<in> ?V" "pk v = k" by blast
  have rel': "list_all2 (\<lambda>q q'. only_edited q q' \<and> (q \<notin> ?V \<longrightarrow> q' = q)) (polygons db0)
                (take ?n (map ?g ?rows))"
  proof (rule list_all2_all_nthI)
    show "length (polygons db0) = length (take ?n (map ?g ?rows))"
      using len by simp
  next
    fix i assume i: "i < length (polygons db0)"
    let ?x = "polygons db0 ! i"
    let ?y = "?rows ! i"
    have xy: "only_edited ?x ?y \<and> (?x \<notin> ?V \<longrightarrow> ?y = ?x)"
      using list_all2_nthD [OF rel i] i len by simp
    have ymem: "?y \<in> set ?rows" using i len by simp
    have gy: "take ?n (map ?g ?rows) ! i = ?g ?y" using i len by simp
    show "only_edited ?x (take ?n (map ?g ?rows) ! i)
          \<and> (?x \<notin> ?V \<longrightarrow> take ?n (map ?g ?rows) ! i = ?x)"
    proof (cases "pk ?y = k")
      case False
      then show ?thesis using xy gy by simp
    next
      case True
      then have y: "?y = poly" using uniq ymem by simp
      have 1: "only_edited ?x ?e"
        using xy y e(3) only_edited_trans by metis
      have "pk ?x = k" using xy True by (simp add: only_edited_iff)
      then have "?x = v"
        using distinct_pk_eq [OF D0, of ?x v] i v visible_polygons_subset [of a db0]
        by auto
      then have 2: "?x \<in> ?V" using v by simp
      show ?thesis using 1 2 gy True by simp
    qed
  qed
  have cr': "\<forall>c\<in>set (drop ?n (map ?g ?rows)). annotation c = anno_pk a"
  proof
    fix c assume "c \<in> set (drop ?n (map ?g ?rows))"
    then have "c \<in> ?g ` set (drop ?n ?rows)" by (simp add: drop_map)
    then obtain c0 where c0: "c0 \<in> set (drop ?n ?rows)" "c = ?g c0" by blast
    show "annotation c = anno_pk a"
      using c0 cr e(2) by (cases "pk c0 = k") simp_all
  qed
  have dist': "distinct (map pk (map ?g ?rows))"
    unfolding pkg by (rule dist)
  have nn': "None \<notin> set (map pk (map ?g ?rows))"
    unfolding pkg by (rule nn)
  have im: "images d = images db0" "annotations d = annotations db0"
    using F unfolding frame_ok_def by simp_all
  have sel: "polygons (d\<lparr>polygons := map ?g ?rows\<rparr>) = map ?g ?rows"
    "images (d\<lparr>polygons := map ?g ?rows\<rparr>) = images d"
    "annotations (d\<lparr>polygons := map ?g ?rows\<rparr>) = annotations d"
    by simp_all
  have len': "?n \<le> length (map ?g ?rows)" using len by simp
  have F': "frame_ok a db0 (d\<lparr>polygons := map ?g ?rows\<rparr>)"
    unfolding frame_ok_def sel
    using im dist' nn' len' rel' cr' by (intro conjI)
  have L1: "\<forall>k' p'. map_of (AList.update k ?e by_id) k' = Some p' \<longrightarrow>
              p' \<in> set (map ?g ?rows) \<and> pk p' = k' \<and> annotation p' = anno_pk a"
  proof (intro allI impI)
    fix k' p'
    assume "map_of (AList.update k ?e by_id) k' = Some p'"
    then have h: "((map_of by_id)(k \<mapsto> ?e)) k' = Some p'"
      by (simp only: update_conv')
    show "p' \<in> set (map ?g ?rows) \<and> pk p' = k' \<and> annotation p' = anno_pk a"
    proof (cases "k' = k")
      case True
      then have "p' = ?e" using h by simp
      moreover have gp: "?g poly = ?e" using poly(2) by simp
      have "?g poly \<in> ?g ` set ?rows" using poly(1) by (rule imageI)
      then have "?e \<in> set (map ?g ?rows)" unfolding gp set_map .
      ultimately show ?thesis using e(1,2) True by simp
    next
      case False
      then have m': "map_of by_id k' = Some p'" using h by simp
      have p': "p' \<in> set ?rows" "pk p' = k'" "annotation p' = anno_pk a"
        using loaded_okD [OF L m'] by simp_all
      have gp': "?g p' = p'" using p'(2) False by simp
      have "?g p' \<in> ?g ` set ?rows" using p'(1) by (rule imageI)
      then have "p' \<in> set (map ?g ?rows)" unfolding gp' set_map .
      then show ?thesis using p'(2,3) by simp
    qed
  qed
  have "k \<in> dom (map_of by_id)" using M by blast
  then have "dom ((map_of by_id)(k \<mapsto> ?e)) = dom (map_of by_id)" by auto
  then have L2: "dom (map_of (AList.update k ?e by_id)) = pk ` ?V"
    using loaded_ok_dom [OF L] by (simp only: update_conv')
  have L': "loaded_ok a db0 (AList.update k ?e by_id) (d\<lparr>polygons := map ?g ?rows\<rparr>)"
    unfolding loaded_ok_def sel using L1 L2 by (intro conjI)
  show ?thesis using F' L' by simp
qed

lemma append_inv:
  assumes F: "frame_ok a db0 d" and L: "loaded_ok a db0 by_id d"
      and ca: "annotation c = anno_pk a" and cp: "pk c = Some (fresh_pk (polygons d))"
  shows "frame_ok a db0 (d\<lparr>polygons := polygons d @ [c]\<rparr>)
       \<and> loaded_ok a db0 by_id (d\<lparr>polygons := polygons d @ [c]\<rparr>)"
proof -
  let ?rows = "polygons d"
  let ?n = "length (polygons db0)"
  have dist: "distinct (map pk ?rows)" and nn: "None \<notin> set (map pk ?rows)"
    and len: "?n \<le> length ?rows"
    and rel: "list_all2 (\<lambda>q q'. only_edited q q' \<and> (q \<notin> set (visible_polygons a db0) \<longrightarrow> q' = q))
                (polygons db0) (take ?n ?rows)"
    and cr: "\<forall>c\<in>set (drop ?n ?rows). annotation c = anno_pk a"
    and im: "images d = images db0" "annotations d = annotations db0"
    using F unfolding frame_ok_def by simp_all
  have fresh: "pk c \<notin> set (map pk ?rows)"
    unfolding cp by (rule fresh_pk_notin)
  have dist': "distinct (map pk (?rows @ [c]))" using dist fresh by simp
  have nn': "None \<notin> set (map pk (?rows @ [c]))" using nn cp by simp
  have len': "?n \<le> length (?rows @ [c])" using len by simp
  have tk: "take ?n (?rows @ [c]) = take ?n ?rows" using len by simp
  have dr: "drop ?n (?rows @ [c]) = drop ?n ?rows @ [c]" using len by simp
  have cr': "\<forall>x\<in>set (drop ?n (?rows @ [c])). annotation x = anno_pk a"
    unfolding dr using cr ca by simp
  have sel: "polygons (d\<lparr>polygons := ?rows @ [c]\<rparr>) = ?rows @ [c]"
    "images (d\<lparr>polygons := ?rows @ [c]\<rparr>) = images d"
    "annotations (d\<lparr>polygons := ?rows @ [c]\<rparr>) = annotations d"
    by simp_all
  have F': "frame_ok a db0 (d\<lparr>polygons := ?rows @ [c]\<rparr>)"
    unfolding frame_ok_def sel tk
    using im dist' nn' len' rel cr' by (intro conjI)
  have L1: "\<forall>k p. map_of by_id k = Some p \<longrightarrow>
              p \<in> set (?rows @ [c]) \<and> pk p = k \<and> annotation p = anno_pk a"
  proof (intro allI impI)
    fix k p assume m: "map_of by_id k = Some p"
    show "p \<in> set (?rows @ [c]) \<and> pk p = k \<and> annotation p = anno_pk a"
      using loaded_okD [OF L m] by simp
  qed
  have L': "loaded_ok a db0 by_id (d\<lparr>polygons := ?rows @ [c]\<rparr>)"
    unfolding loaded_ok_def sel using L1 loaded_ok_dom [OF L] by (intro conjI)
  show ?thesis using F' L' by simp
qed

lemma update_polygon_inv:
  assumes step: "update_polygon null_ok now a by_index ap (c, by_id, d) = (Inr u, (c', by_id', d'))"
      and F: "frame_ok a db0 d" and L: "loaded_ok a db0 by_id d"
      and D0: "distinct (map pk (polygons db0))"
  shows "frame_ok a db0 d' \<and> loaded_ok a db0 by_id' d' \<and> ((c' = c \<and> d' = d) \<or> c' = True)"
proof -
  note r = update_polygon_result [OF step]
  have nn: "None \<notin> set (map pk (polygons d))"
    using F unfolding frame_ok_def by simp
  consider (same) "(c', by_id', d') = (c, by_id, d)"
    | (loaded) k poly p1 d1 where "map_of by_id k = Some poly"
        "save_polygon null_ok (edited now ap poly) d = Inr (p1, d1)"
        "(c', by_id', d') = (True, AList.update (pk p1) p1 by_id, d1)"
    | (fresh) p1 d1 where
        "save_polygon null_ok (edited now ap (new_polygon a (ap_index ap))) d = Inr (p1, d1)"
        "(c', by_id', d') = (True, by_id, d1)"
    using r by blast
  then show ?thesis
  proof cases
    case same
    then show ?thesis using F L by simp
  next
    case loaded
    have poly: "poly \<in> set (polygons d)" "pk poly = k"
      using loaded_okD [OF L loaded(1)] by simp_all
    have kin: "k \<in> set (map pk (polygons d))" using poly by auto
    have "k \<noteq> None"
    proof
      assume "k = None"
      then show False using kin nn by simp
    qed
    then obtain i where i: "k = Some i" by auto
    have pe: "pk (edited now ap poly) = Some i"
      using poly(2) i by (simp add: edited_fields)
    have mem: "Some i \<in> set (map pk (polygons d))" using kin i by simp
    have sv: "p1 = edited now ap poly"
      "d1 = d\<lparr>polygons := map (\<lambda>q. if pk q = Some i then edited now ap poly else q) (polygons d)\<rparr>"
      using save_polygon_loaded [OF loaded(2) pe mem] by simp_all
    have M: "map_of by_id (Some i) = Some poly" using loaded(1) i by simp
    have eq: "c' = True" "by_id' = AList.update (Some i) (edited now ap poly) by_id" "d' = d1"
      using loaded(3) sv(1) pe by simp_all
    show ?thesis
      unfolding eq sv(2)
      using replace_inv [OF F L D0 M, of now ap] by simp
  next
    case fresh
    have pn: "pk (edited now ap (new_polygon a (ap_index ap))) = None"
      by (simp add: edited_fields new_polygon_def)
    have sv: "p1 = (edited now ap (new_polygon a (ap_index ap)))\<lparr>pk := Some (fresh_pk (polygons d))\<rparr>"
      "d1 = d\<lparr>polygons := polygons d @ [p1]\<rparr>"
      using save_polygon_fresh [OF fresh(1) pn] by simp_all
    have ca: "annotation p1 = anno_pk a"
      unfolding sv(1) by (simp add: edited_def new_polygon_def)
    have cp: "pk p1 = Some (fresh_pk (polygons d))"
      unfolding sv(1) by simp
    have eq: "c' = True" "by_id' = by_id" "d' = d1"
      using fresh(2) by simp_all
    show ?thesis
      unfolding eq sv(2)
      using append_inv [OF F L ca cp] by simp
  qed
qed

lemma update_polygons_inv:
  assumes "update_polygons null_ok now a by_index aps (c, by_id, d) = (Inr u, (c', by_id', d'))"
      and "frame_ok a db0 d" and "loaded_ok a db0 by_id d"
      and "distinct (map pk (polygons db0))"
  shows "frame_ok a db0 d' \<and> loaded_ok a db0 by_id' d' \<and> ((c' = c \<and> d' = d) \<or> c' = True)"
  using assms
proof (induction aps arbitrary: c by_id d)
  case Nil
  then show ?case by simp
next
  case (Cons ap aps)
  obtain r c1 b1 d1 where s1: "update_polygon null_ok now a by_index ap (c, by_id, d) = (r, (c1, b1, d1))"
    by (metis prod_cases3 surj_pair)
  show ?case
  proof (cases r)
    case (Inl e)
    then show ?thesis using Cons.prems(1) s1 by simp
  next
    case (Inr v)
    have s1': "update_polygon null_ok now a by_index ap (c, by_id, d) = (Inr v, (c1, b1, d1))"
      using s1 Inr by simp
    have rest: "update_polygons null_ok now a by_index aps (c1, b1, d1) = (Inr u, (c', by_id', d'))"
      using Cons.prems(1) s1' by simp
    note i1 = update_polygon_inv [OF s1' Cons.prems(2) Cons.prems(3) Cons.prems(4)]
    have F1: "frame_ok a db0 d1" and L1: "loaded_ok a db0 b1 d1"
      and f1: "(c1 = c \<and> d1 = d) \<or> c1 = True"
      using i1 by simp_all
    note i2 = Cons.IH [OF rest F1 L1 Cons.prems(4)]
    show ?thesis using i2 f1 by auto
  qed
qed

lemma process_successD:
  assumes "process_annotation_xml null_ok round2 now u root db db_locked = (Inr v, db')"
  shows "\<exists>img a0 aps a c by_id' d.
      lookup_image root db = Some img \<and> lookup_annotation u root img db = Some a0
    \<and> document_edit_key root = Some (edit_key a0)
    \<and> parse_objects round2 [] 0 (findall ''object'' root) = Some aps
    \<and> objects_get (\<lambda>r. anno_pk r = anno_pk a0) (annotations db_locked) = Inr a
    \<and> edit_key a = edit_key a0
    \<and> update_polygons null_ok now a (polygons_by_index (polygons_by_id (visible_polygons a0 db))) aps
         (False, polygons_by_id (visible_polygons a0 db), db_locked) = (Inr (), (c, by_id', d))
    \<and> db' = (if c then save_annotation_last_edit_time (a\<lparr>anno_last_edit_time := now\<rparr>) d else d)"
  using assms
  by (auto simp: process_annotation_xml_def atomic_def transaction_body_def Let_def
           split: option.splits if_splits prod.splits sum.splits)

lemma lookup_annotation_Some:
  assumes "lookup_annotation u root img db = Some a"
  shows "a \<in> set (annotations db) \<and> annotator a = u \<and> anno_image a = image_pk img
       \<and> anno_locked a = False \<and> anno_deleted a = False"
proof -
  have "objects_get (\<lambda>a. annotator a = u \<and> anno_image a = image_pk img
            \<and> anno_locked a = False \<and> anno_deleted a = False) (annotations db) = Inr a"
    using assms
    by (auto simp: lookup_annotation_def split: option.splits sum.splits if_splits)
  then show ?thesis using objects_get_Inr by fastforce
qed

lemma objects_get_unique:
  assumes "objects_get P rows = Inr r" and "x \<in> set rows" and "P x"
  shows "x = r"
proof -
  have "filter P rows = [r]"
    using assms(1) by (auto simp: objects_get_def split: list.splits)
  moreover have "x \<in> set (filter P rows)" using assms(2,3) by simp
  ultimately show ?thesis by simp
qed

lemma visible_polygons_cong:
  "anno_pk a = anno_pk b \<Longrightarrow> visible_polygons a db = visible_polygons b db"
  by (simp add: visible_polygons_def)

lemma save_time_fields:
  "polygons (save_annotation_last_edit_time a d) = polygons d
   \<and> images (save_annotation_last_edit_time a d) = images d"
  by (simp add: save_annotation_last_edit_time_def)

lemma process_success_seq:
  assumes ok: "process_annotation_xml null_ok round2 now u root db db = (Inr v, db')"
  shows "\<exists>img a aps c by_id' d.
      lookup_image root db = Some img \<and> lookup_annotation u root img db = Some a
    \<and> parse_objects round2 [] 0 (findall ''object'' root) = Some aps
    \<and> update_polygons null_ok now a (polygons_by_index (polygons_by_id (visible_polygons a db))) aps
         (False, polygons_by_id (visible_polygons a db), db) = (Inr (), (c, by_id', d))
    \<and> db' = (if c then save_annotation_last_edit_time (a\<lparr>anno_last_edit_time := now\<rparr>) d else d)"
proof -
  obtain img a0 aps a c by_id' d where h:
      "lookup_image root db = Some img" "lookup_annotation u root img db = Some a0"
      "parse_objects round2 [] 0 (findall ''object'' root) = Some aps"
      "objects_get (\<lambda>r. anno_pk r = anno_pk a0) (annotations db) = Inr a"
      "update_polygons null_ok now a (polygons_by_index (polygons_by_id (visible_polygons a0 db))) aps
         (False, polygons_by_id (visible_polygons a0 db), db) = (Inr (), (c, by_id', d))"
      "db' = (if c then save_annotation_last_edit_time (a\<lparr>anno_last_edit_time := now\<rparr>) d else d)"
    using process_successD [OF ok] by blast
  have "a0 \<in> set (annotations db)" using lookup_annotation_Some [OF h(2)] by simp
  then have "a0 = a" using objects_get_unique [OF h(4), of a0] by simp
  then show ?thesis using h by blast
qed

lemma import_loop_inv:
  assumes ok: "process_annotation_xml null_ok round2 now u root db db = (Inr v, db')"
      and wf: "distinct (map pk (polygons db))" "None \<notin> set (map pk (polygons db))"
  shows "\<exists>img a aps c by_id' d.
      lookup_image root db = Some img \<and> lookup_annotation u root img db = Some a
    \<and> parse_objects round2 [] 0 (findall ''object'' root) = Some aps
    \<and> update_polygons null_ok now a (polygons_by_index (polygons_by_id (visible_polygons a db))) aps
         (False, polygons_by_id (visible_polygons a db), db) = (Inr (), (c, by_id', d))
    \<and> db' = (if c then save_annotation_last_edit_time (a\<lparr>anno_last_edit_time := now\<rparr>) d else d)
    \<and> frame_ok a db d \<and> loaded_ok a db by_id' d \<and> (c = False \<longrightarrow> d = db)"
proof -
  obtain img a aps c by_id' d where h:
      "lookup_image root db = Some img" "lookup_annotation u root img db = Some a"
      "parse_objects round2 [] 0 (findall ''object'' root) = Some aps"
      "update_polygons null_ok now a (polygons_by_index (polygons_by_id (visible_polygons a db))) aps
         (False, polygons_by_id (visible_polygons a db), db) = (Inr (), (c, by_id', d))"
      "db' = (if c then save_annotation_last_edit_time (a\<lparr>anno_last_edit_time := now\<rparr>) d else d)"
    using process_success_seq [OF ok] by blast
  note inv = update_polygons_inv [OF h(4) frame_ok_refl [OF wf] loaded_ok_init wf(1)]
  have "frame_ok a db d" "loaded_ok a db by_id' d" "c = False \<longrightarrow> d = db"
    using inv by auto
  then show ?thesis using h by blast
qed


section \<open>The frame of a successful import\<close>



lemma ex_db_keys:
  "distinct (map pk (polygons ex_db)) \<and> None \<notin> set (map pk (polygons ex_db))"
  by code_simp


section \<open>Containment in the annotation\<close>








section \<open>A new polygon within one session\<close>

lemma parse_object_index:
  "parse_object round2 seen i obj = Some ap \<Longrightarrow> ap_index ap = i"
  by (auto simp: parse_object_def split: option.splits if_splits)

lemma parse_objects_index:
  "parse_objects round2 seen i objs = Some aps \<Longrightarrow> map ap_index aps = [i..<i + length aps]"
proof (induction objs arbitrary: seen i aps)
  case Nil
  then show ?case by simp
next
  case (Cons obj objs)
  obtain ap where ap: "parse_object round2 seen i obj = Some ap"
    using Cons.prems by (auto split: option.splits)
  obtain rest where rest:
    "parse_objects round2 (case ap_id ap of None \<Rightarrow> seen | Some k \<Rightarrow> k # seen) (Suc i) objs = Some rest"
    and aps: "aps = ap # rest"
    using Cons.prems ap by (auto split: option.splits)
  have ih: "map ap_index rest = [Suc i..<Suc i + length rest]"
    using Cons.IH [OF rest] .
  have e: "[i..<i + length aps] = i # [Suc i..<Suc i + length rest]"
    unfolding aps by (subst upt_rec) simp
  have "map ap_index aps = i # map ap_index rest"
    using aps parse_object_index [OF ap] by simp
  then show ?case
    unfolding e ih .
qed

lemma parse_objects_last_index:
  assumes "parse_objects round2 [] 0 objs = Some (aps @ [n])"
  shows "ap_index n = length aps"
proof -
  have "map ap_index (aps @ [n]) = [0..<Suc (length aps)]"
    using parse_objects_index [OF assms] by simp
  then have "map ap_index (aps @ [n]) ! length aps = [0..<Suc (length aps)] ! length aps"
    by simp
  then show ?thesis by (simp add: nth_append)
qed

lemma update_polygons_append:
  "update_polygons null_ok now a by_index (xs @ ys) st =
     (case update_polygons null_ok now a by_index xs st of
        (Inl e, st') \<Rightarrow> (Inl e, st')
      | (Inr u, st') \<Rightarrow> update_polygons null_ok now a by_index ys st')"
proof (induction xs arbitrary: st)
  case Nil
  then show ?case by simp
next
  case (Cons x xs)
  show ?case
    using Cons.IH by (simp split: prod.splits sum.splits)
qed

lemma get_annotation_xml_success:
  assumes "get_annotation_xml fmt2 key u image_id db0 = (Inr body, db1)"
  shows "\<exists>a0. objects_get (\<lambda>a. annotator a = u \<and> anno_image a = image_id \<and> anno_deleted a = False)
                 (annotations db0) = Inr a0
            \<and> db1 = clear_indices (a0\<lparr>edit_key := key\<rparr>) (save_annotation (a0\<lparr>edit_key := key\<rparr>) db0)"
proof (cases "objects_get (\<lambda>i. image_pk i = image_id) (images db0)")
  case (Inl e)
  then show ?thesis using assms
    by (cases e) (simp_all add: get_annotation_xml_def)
next
  case (Inr img)
  have ipk: "image_pk img = image_id" using objects_get_Inr [OF Inr] by simp
  show ?thesis
  proof (cases "visible img = False")
    case True
    then show ?thesis using assms Inr by (simp add: get_annotation_xml_def)
  next
    case False
    show ?thesis
    proof (cases "objects_get (\<lambda>a. annotator a = u \<and> anno_image a = image_id \<and> anno_deleted a = False)
                 (annotations db0)")
      case l: (Inl e)
      then show ?thesis using assms Inr False ipk
        by (cases e) (simp_all add: get_annotation_xml_def)
    next
      case r: (Inr a0)
      then show ?thesis using assms Inr False ipk
        by (simp add: get_annotation_xml_def Let_def split: sum.splits)
    qed
  qed
qed

lemma update_absent: "k \<notin> fst ` set al \<Longrightarrow> AList.update k v al = al @ [(k, v)]"
  by (induction al) auto

lemma polygons_by_id_distinct_aux:
  "distinct (map pk ps) \<Longrightarrow> pk ` set ps \<inter> fst ` set d = {} \<Longrightarrow>
   fold (\<lambda>p d. AList.update (pk p) p d) ps d = d @ map (\<lambda>p. (pk p, p)) ps"
proof (induction ps arbitrary: d)
  case Nil
  then show ?case by simp
next
  case (Cons q ps)
  have nq: "pk q \<notin> fst ` set d" using Cons.prems(2) by auto
  have u: "AList.update (pk q) q d = d @ [(pk q, q)]"
    using update_absent [OF nq] .
  have d1: "distinct (map pk ps)" using Cons.prems(1) by simp
  have d2: "pk ` set ps \<inter> fst ` set (d @ [(pk q, q)]) = {}"
    using Cons.prems by auto
  show ?case
    using Cons.IH [OF d1 d2] u by simp
qed

lemma polygons_by_id_distinct:
  "distinct (map pk ps) \<Longrightarrow> polygons_by_id ps = map (\<lambda>p. (pk p, p)) ps"
  unfolding polygons_by_id_def
  using polygons_by_id_distinct_aux [of ps "[]"] by simp

lemma polygons_by_index_none_aux:
  "\<forall>kp\<in>set al. anno_index (snd kp) = None \<Longrightarrow>
   fold (\<lambda>kp d. case anno_index (snd kp) of None \<Rightarrow> d | Some i \<Rightarrow> AList.update i (fst kp) d)
        al d = d"
  by (induction al arbitrary: d) simp_all

lemma polygons_by_index_last:
  assumes "\<forall>kp\<in>set al. anno_index (snd kp) = None" and "anno_index p = Some i"
  shows "polygons_by_index (al @ [(k, p)]) = [(i, k)]"
  unfolding polygons_by_index_def
  using polygons_by_index_none_aux [OF assms(1), of "[]"] assms(2) by simp

lemma polygons_by_index_none:
  assumes "\<forall>kp\<in>set al. anno_index (snd kp) = None"
  shows "polygons_by_index al = []"
  unfolding polygons_by_index_def
  using polygons_by_index_none_aux [OF assms, of "[]"] by simp

lemma update_polygon_shape:
  assumes step: "update_polygon null_ok now a by_index ap (c, by_id, d) = (Inr u, (c', by_id', d'))"
      and F: "frame_ok a db0 d" and L: "loaded_ok a db0 by_id d"
  shows "(c', by_id', d') = (c, by_id, d)
       \<or> (\<exists>i poly. map_of by_id (Some i) = Some poly \<and> c' = True
             \<and> by_id' = AList.update (Some i) (edited now ap poly) by_id
             \<and> d' = d\<lparr>polygons := map (\<lambda>q. if pk q = Some i then edited now ap poly else q)
                                       (polygons d)\<rparr>)
       \<or> (ap_id ap = None \<and> ap_deleted ap = False \<and> c' = True \<and> by_id' = by_id
           \<and> d' = d\<lparr>polygons := polygons d @
                  [(edited now ap (new_polygon a (ap_index ap)))\<lparr>pk := Some (fresh_pk (polygons d))\<rparr>]\<rparr>)"
proof -
  note r = update_polygon_result [OF step]
  have nn: "None \<notin> set (map pk (polygons d))"
    using F unfolding frame_ok_def by simp
  consider (same) "(c', by_id', d') = (c, by_id, d)"
    | (loaded) k poly p1 d1 where "map_of by_id k = Some poly"
        "save_polygon null_ok (edited now ap poly) d = Inr (p1, d1)"
        "(c', by_id', d') = (True, AList.update (pk p1) p1 by_id, d1)"
    | (fresh) p1 d1 where "ap_id ap = None" "\<not> ap_deleted ap"
        "save_polygon null_ok (edited now ap (new_polygon a (ap_index ap))) d = Inr (p1, d1)"
        "(c', by_id', d') = (True, by_id, d1)"
    using r by blast
  then show ?thesis
  proof cases
    case same
    then show ?thesis by simp
  next
    case loaded
    have poly: "poly \<in> set (polygons d)" "pk poly = k"
      using loaded_okD [OF L loaded(1)] by simp_all
    have kin: "k \<in> set (map pk (polygons d))" using poly by auto
    have "k \<noteq> None"
    proof
      assume "k = None"
      then show False using kin nn by simp
    qed
    then obtain i where i: "k = Some i" by auto
    have pe: "pk (edited now ap poly) = Some i"
      using poly(2) i by (simp add: edited_fields)
    have mem: "Some i \<in> set (map pk (polygons d))" using kin i by simp
    have sv: "p1 = edited now ap poly"
      "d1 = d\<lparr>polygons := map (\<lambda>q. if pk q = Some i then edited now ap poly else q) (polygons d)\<rparr>"
      using save_polygon_loaded [OF loaded(2) pe mem] by simp_all
    have M: "map_of by_id (Some i) = Some poly" using loaded(1) i by simp
    have eq: "c' = True" "by_id' = AList.update (Some i) (edited now ap poly) by_id" "d' = d1"
      using loaded(3) sv(1) pe by simp_all
    show ?thesis using M eq sv(2) by blast
  next
    case fresh
    have pn: "pk (edited now ap (new_polygon a (ap_index ap))) = None"
      by (simp add: edited_fields new_polygon_def)
    have sv: "p1 = (edited now ap (new_polygon a (ap_index ap)))\<lparr>pk := Some (fresh_pk (polygons d))\<rparr>"
      "d1 = d\<lparr>polygons := polygons d @ [p1]\<rparr>"
      using save_polygon_fresh [OF fresh(3) pn] by simp_all
    have eq: "c' = True" "by_id' = by_id" "d' = d1"
      using fresh(4) by simp_all
    show ?thesis using fresh(1,2) eq sv by simp
  qed
qed

lemma update_polygon_ids_pks:
  assumes step: "update_polygon null_ok now a by_index ap (c, by_id, d) = (Inr u, (c', by_id', d'))"
      and F: "frame_ok a db0 d" and L: "loaded_ok a db0 by_id d"
      and idp: "ap_id ap \<noteq> None"
  shows "map pk (polygons d') = map pk (polygons d)"
proof -
  note s = update_polygon_shape [OF step F L]
  consider (same) "(c', by_id', d') = (c, by_id, d)"
    | (loaded) i poly where "map_of by_id (Some i) = Some poly"
        "d' = d\<lparr>polygons := map (\<lambda>q. if pk q = Some i then edited now ap poly else q) (polygons d)\<rparr>"
    using s idp by blast
  then show ?thesis
  proof cases
    case same
    then show ?thesis by simp
  next
    case loaded
    have "pk poly = Some i" using loaded_okD [OF L loaded(1)] by simp
    then have pe: "pk (edited now ap poly) = Some i" by (simp add: edited_fields)
    have "map pk (map (\<lambda>q. if pk q = Some i then edited now ap poly else q) (polygons d))
          = map pk (polygons d)"
      using pe by (simp add: comp_def cong: map_cong)
    then show ?thesis using loaded(2) by simp
  qed
qed

lemma update_polygons_ids_pks:
  assumes "update_polygons null_ok now a by_index aps (c, by_id, d) = (Inr u, (c', by_id', d'))"
      and "frame_ok a db0 d" and "loaded_ok a db0 by_id d"
      and "distinct (map pk (polygons db0))"
      and "\<forall>ap\<in>set aps. ap_id ap \<noteq> None"
  shows "map pk (polygons d') = map pk (polygons d)"
  using assms
proof (induction aps arbitrary: c by_id d)
  case Nil
  then show ?case by simp
next
  case (Cons x xs)
  obtain r c1 b1 d1 where s1: "update_polygon null_ok now a by_index x (c, by_id, d) = (r, (c1, b1, d1))"
    by (metis prod_cases3 surj_pair)
  show ?case
  proof (cases r)
    case (Inl e)
    then show ?thesis using Cons.prems(1) s1 by simp
  next
    case (Inr v)
    have s1': "update_polygon null_ok now a by_index x (c, by_id, d) = (Inr v, (c1, b1, d1))"
      using s1 Inr by simp
    have rest: "update_polygons null_ok now a by_index xs (c1, b1, d1) = (Inr u, (c', by_id', d'))"
      using Cons.prems(1) s1' by simp
    note i1 = update_polygon_inv [OF s1' Cons.prems(2) Cons.prems(3) Cons.prems(4)]
    have F1: "frame_ok a db0 d1" and L1: "loaded_ok a db0 b1 d1"
      using i1 by simp_all
    have xid: "ap_id x \<noteq> None" and xsid: "\<forall>ap\<in>set xs. ap_id ap \<noteq> None"
      using Cons.prems(5) by simp_all
    have p1: "map pk (polygons d1) = map pk (polygons d)"
      using update_polygon_ids_pks [OF s1' Cons.prems(2) Cons.prems(3) xid] .
    have p2: "map pk (polygons d') = map pk (polygons d1)"
      using Cons.IH [OF rest F1 L1 Cons.prems(4) xsid] .
    show ?thesis using p1 p2 by simp
  qed
qed

lemma find_polygon_new:
  assumes "ap_id ap = None" and "map_of by_index (ap_index ap) = None" and "\<not> ap_deleted ap"
  shows "find_polygon a by_id by_index ap = Inr (Some (new_polygon a (ap_index ap), True))"
  using assms by (simp add: find_polygon_def)

lemma update_polygon_new:
  assumes "ap_id ap = None" and "map_of by_index (ap_index ap) = None" and "\<not> ap_deleted ap"
  shows "update_polygon null_ok now a by_index ap (c, by_id, d) =
     (if ap_name ap = None \<and> null_ok = False then (Inl IntegrityError, (c, by_id, d))
      else (Inr (), (True, by_id,
              d\<lparr>polygons := polygons d @
                 [(edited now ap (new_polygon a (ap_index ap)))\<lparr>pk := Some (fresh_pk (polygons d))\<rparr>]\<rparr>)))"
proof -
  let ?e = "edited now ap (new_polygon a (ap_index ap))"
  have pn: "pk ?e = None" "label_as_str ?e = ap_name ap"
    by (simp_all add: edited_fields new_polygon_def)
  have fp: "find_polygon a by_id by_index ap = Inr (Some (new_polygon a (ap_index ap), True))"
    using find_polygon_new [OF assms] .
  show ?thesis
  proof (cases "ap_name ap = None \<and> null_ok = False")
    case True
    then have sv: "save_polygon null_ok ?e d = Inl IntegrityError"
      using pn by (simp add: save_polygon_def)
    have "update_polygon null_ok now a by_index ap (c, by_id, d) = (Inl IntegrityError, (c, by_id, d))"
      using fp sv by (simp add: update_polygon_def edited_def)
    then show ?thesis using True by simp
  next
    case False
    then have sv: "save_polygon null_ok ?e d =
        Inr (?e\<lparr>pk := Some (fresh_pk (polygons d))\<rparr>,
             d\<lparr>polygons := polygons d @ [?e\<lparr>pk := Some (fresh_pk (polygons d))\<rparr>]\<rparr>)"
      using pn by (simp add: save_polygon_def Let_def)
    have "update_polygon null_ok now a by_index ap (c, by_id, d) =
        (Inr (), (True, by_id, d\<lparr>polygons := polygons d @ [?e\<lparr>pk := Some (fresh_pk (polygons d))\<rparr>]\<rparr>))"
      using fp sv by (simp add: update_polygon_def edited_def)
    then show ?thesis using False by simp
  qed
qed

lemma update_polygon_matched:
  assumes fp: "find_polygon a by_id by_index ap = Inr (Some (q, False))"
      and step: "update_polygon null_ok now a by_index ap (c, by_id, d) = (Inr u, (c', by_id', d'))"
      and pq: "pk q = Some i" and mem: "Some i \<in> set (map pk (polygons d))"
  shows "(d' = d \<and> label_as_str q = ap_name ap)
       \<or> d' = d\<lparr>polygons := map (\<lambda>r. if pk r = Some i then edited now ap q else r) (polygons d)\<rparr>"
proof (cases "save_polygon null_ok (edited now ap q) d")
  case (Inl e)
  then have "d' = d \<and> label_as_str q = ap_name ap"
    using step fp
    by (simp add: update_polygon_def edited_def Let_def split: if_splits)
  then show ?thesis by simp
next
  case (Inr r)
  obtain p1 d1 where r: "r = (p1, d1)" by (cases r)
  have sv: "save_polygon null_ok (edited now ap q) d = Inr (p1, d1)"
    using Inr r by simp
  have pe: "pk (edited now ap q) = Some i" using pq by (simp add: edited_fields)
  have d1: "d1 = d\<lparr>polygons := map (\<lambda>r. if pk r = Some i then edited now ap q else r) (polygons d)\<rparr>"
    using save_polygon_loaded [OF sv pe mem] by simp
  have "(d' = d \<and> label_as_str q = ap_name ap) \<or> d' = d1"
    using step fp sv
    by (simp add: update_polygon_def edited_def Let_def split: if_splits)
  then show ?thesis using d1 by simp
qed

lemma visible_rows_no_index:
  assumes rel: "list_all2 (\<lambda>q q'. only_edited q q' \<and> (q \<notin> set (visible_polygons a db) \<longrightarrow> q' = q))
                 (polygons db) rows"
      and noidx: "\<forall>p\<in>set (visible_polygons a db). anno_index p = None"
      and mem: "q' \<in> set rows" and v: "annotation q' = anno_pk a" "deleted q' = False"
  shows "anno_index q' = None"
proof -
  obtain j where j: "j < length rows" "rows ! j = q'"
    using mem by (auto simp: in_set_conv_nth)
  have len: "length (polygons db) = length rows"
    using rel by (rule list_all2_lengthD)
  let ?q = "polygons db ! j"
  have jj: "j < length (polygons db)" using j len by simp
  have r: "only_edited ?q q' \<and> (?q \<notin> set (visible_polygons a db) \<longrightarrow> q' = ?q)"
    using list_all2_nthD [OF rel jj] j by simp
  have qm: "?q \<in> set (polygons db)" using jj by simp
  show ?thesis
  proof (cases "?q \<in> set (visible_polygons a db)")
    case True
    then have "anno_index ?q = None" using noidx by blast
    then show ?thesis using r by (simp add: only_edited_iff)
  next
    case False
    then have "q' = ?q" using r by simp
    then have "?q \<in> set (visible_polygons a db)"
      using qm v by (simp add: visible_polygons_iff)
    then show ?thesis using False by simp
  qed
qed

lemma import_creates_last:
  assumes ok: "process_annotation_xml null_ok round2 now u root db db = (Inr (), db')"
      and wf: "distinct (map pk (polygons db))" "None \<notin> set (map pk (polygons db))"
      and img: "lookup_image root db = Some img"
      and a: "lookup_annotation u root img db = Some a"
      and parse: "parse_objects round2 [] 0 (findall ''object'' root) = Some (aps @ [n])"
      and ids: "\<forall>ap\<in>set aps. ap_id ap \<noteq> None"
      and nid: "ap_id n = None" and nd: "\<not> ap_deleted n"
      and noidx: "\<forall>p\<in>set (visible_polygons a db). anno_index p = None"
  shows "\<exists>rows p. polygons db' = rows @ [p] \<and> map pk rows = map pk (polygons db)
       \<and> p = (edited now n (new_polygon a (length aps)))\<lparr>pk := Some (fresh_pk rows)\<rparr>
       \<and> (\<forall>q\<in>set rows. annotation q = anno_pk a \<and> deleted q = False \<longrightarrow> anno_index q = None)
       \<and> distinct (map pk (polygons db')) \<and> None \<notin> set (map pk (polygons db'))
       \<and> images db' = images db
       \<and> annotations db' =
           map (\<lambda>r. if anno_pk r = anno_pk a then r\<lparr>anno_last_edit_time := now\<rparr> else r)
               (annotations db)"
proof -
  let ?vis = "visible_polygons a db"
  let ?by_id = "polygons_by_id ?vis"
  let ?by_index = "polygons_by_index ?by_id"
  obtain img1 a1 aps1 c by_id' d where h:
      "lookup_image root db = Some img1" "lookup_annotation u root img1 db = Some a1"
      "parse_objects round2 [] 0 (findall ''object'' root) = Some aps1"
      "update_polygons null_ok now a1 (polygons_by_index (polygons_by_id (visible_polygons a1 db))) aps1
         (False, polygons_by_id (visible_polygons a1 db), db) = (Inr (), (c, by_id', d))"
      "db' = (if c then save_annotation_last_edit_time (a1\<lparr>anno_last_edit_time := now\<rparr>) d else d)"
      "frame_ok a1 db d"
    using import_loop_inv [OF ok wf] by blast
  have "img1 = img" using h(1) img by simp
  then have a1: "a1 = a" using h(2) a by simp
  have aps1: "aps1 = aps @ [n]" using h(3) parse by simp
  have dv: "distinct (map pk ?vis)"
    unfolding visible_polygons_def using wf(1) by (rule distinct_map_filter)
  have bid: "?by_id = map (\<lambda>p. (pk p, p)) ?vis"
    using polygons_by_id_distinct [OF dv] .
  have "\<forall>kp\<in>set ?by_id. anno_index (snd kp) = None"
    unfolding bid using noidx by auto
  then have bix: "?by_index = []" by (rule polygons_by_index_none)
  have loop: "update_polygons null_ok now a [] (aps @ [n]) (False, ?by_id, db) = (Inr (), (c, by_id', d))"
    using h(4) a1 aps1 bix by simp
  obtain r1 c1 b1 d1 where s1:
      "update_polygons null_ok now a [] aps (False, ?by_id, db) = (r1, (c1, b1, d1))"
    by (metis prod_cases3 surj_pair)
  have r1: "r1 = Inr ()"
  proof (cases r1)
    case (Inl e)
    then show ?thesis using loop s1 by (simp add: update_polygons_append)
  next
    case (Inr v)
    then show ?thesis by simp
  qed
  have s1': "update_polygons null_ok now a [] aps (False, ?by_id, db) = (Inr (), (c1, b1, d1))"
    using s1 r1 by simp
  have last_step: "update_polygons null_ok now a [] [n] (c1, b1, d1) = (Inr (), (c, by_id', d))"
    using loop s1' by (simp add: update_polygons_append)
  have F0: "frame_ok a db db" using frame_ok_refl [OF wf] .
  have L0: "loaded_ok a db ?by_id db" using loaded_ok_init .
  note i1 = update_polygons_inv [OF s1' F0 L0 wf(1)]
  have F1: "frame_ok a db d1" using i1 by simp
  have pks1: "map pk (polygons d1) = map pk (polygons db)"
    using update_polygons_ids_pks [OF s1' F0 L0 wf(1) ids] .
  have len1: "length (polygons d1) = length (polygons db)"
    using pks1 by (rule map_eq_imp_length_eq)
  let ?p = "(edited now n (new_polygon a (ap_index n)))\<lparr>pk := Some (fresh_pk (polygons d1))\<rparr>"
  have stepn: "update_polygon null_ok now a [] n (c1, b1, d1) =
     (if ap_name n = None \<and> null_ok = False then (Inl IntegrityError, (c1, b1, d1))
      else (Inr (), (True, b1, d1\<lparr>polygons := polygons d1 @ [?p]\<rparr>)))"
    using update_polygon_new [OF nid _ nd, of "[]" null_ok now a c1 b1 d1] by simp
  have fin: "c = True" "d = d1\<lparr>polygons := polygons d1 @ [?p]\<rparr>"
    using last_step stepn by (simp_all split: if_splits)
  have idx: "ap_index n = length aps"
    using parse_objects_last_index [OF parse] .
  have pol: "polygons db' = polygons d1 @ [?p]"
    using h(5) fin by (simp add: save_time_fields)
  have rel: "list_all2 (\<lambda>q q'. only_edited q q' \<and> (q \<notin> set ?vis \<longrightarrow> q' = q))
                 (polygons db) (polygons d1)"
    using F1 len1 unfolding frame_ok_def by simp
  have others: "\<forall>q\<in>set (polygons d1). annotation q = anno_pk a \<and> deleted q = False
                  \<longrightarrow> anno_index q = None"
    using visible_rows_no_index [OF rel noidx] by blast
  have Ff: "frame_ok a db d" using h(6) a1 by simp
  have dist: "distinct (map pk (polygons d))" "None \<notin> set (map pk (polygons d))"
    and im: "images d = images db" "annotations d = annotations db"
    using Ff unfolding frame_ok_def by simp_all
  have pd: "polygons db' = polygons d" using h(5) by (simp add: save_time_fields)
  have imgs: "images db' = images db" using h(5) im by (simp add: save_time_fields)
  have anns: "annotations db' =
           map (\<lambda>r. if anno_pk r = anno_pk a then r\<lparr>anno_last_edit_time := now\<rparr> else r)
               (annotations db)"
    using h(5) fin(1) im(2) a1 by (simp add: save_annotation_last_edit_time_def)
  have pform: "?p = (edited now n (new_polygon a (length aps)))\<lparr>pk := Some (fresh_pk (polygons d1))\<rparr>"
    using idx by simp
  have dist': "distinct (map pk (polygons db'))" "None \<notin> set (map pk (polygons db'))"
    using dist pd by simp_all
  show ?thesis
  proof (intro exI conjI)
    show "polygons db' = polygons d1 @ [?p]" by (rule pol)
    show "map pk (polygons d1) = map pk (polygons db)" by (rule pks1)
    show "?p = (edited now n (new_polygon a (length aps)))\<lparr>pk := Some (fresh_pk (polygons d1))\<rparr>"
      by (rule pform)
    show "\<forall>q\<in>set (polygons d1). annotation q = anno_pk a \<and> deleted q = False
                  \<longrightarrow> anno_index q = None" by (rule others)
    show "distinct (map pk (polygons db'))" by (rule dist'(1))
    show "None \<notin> set (map pk (polygons db'))" by (rule dist'(2))
    show "images db' = images db" by (rule imgs)
    show "annotations db' =
           map (\<lambda>r. if anno_pk r = anno_pk a then r\<lparr>anno_last_edit_time := now\<rparr> else r)
               (annotations db)" by (rule anns)
  qed
qed

lemma import_matches_last:
  assumes ok: "process_annotation_xml null_ok round2 now u root db db = (Inr (), db')"
      and wf: "distinct (map pk (polygons db))" "None \<notin> set (map pk (polygons db))"
      and img: "lookup_image root db = Some img"
      and a: "lookup_annotation u root img db = Some a"
      and parse: "parse_objects round2 [] 0 (findall ''object'' root) = Some (aps @ [n])"
      and ids: "\<forall>ap\<in>set aps. ap_id ap \<noteq> None"
      and nid: "ap_id n = None"
      and rows: "polygons db = rows @ [p]"
      and pv: "annotation p = anno_pk a" "deleted p = False" "anno_index p = Some (length aps)"
      and others: "\<forall>q\<in>set rows. annotation q = anno_pk a \<and> deleted q = False \<longrightarrow> anno_index q = None"
  shows "map pk (polygons db') = map pk (polygons db)
       \<and> label_as_str (last (polygons db')) = ap_name n"
proof -
  let ?vis = "visible_polygons a db"
  let ?by_id = "polygons_by_id ?vis"
  let ?by_index = "polygons_by_index ?by_id"
  let ?V = "\<lambda>p. annotation p = anno_pk a \<and> deleted p = False"
  obtain img1 a1 aps1 c by_id' d where h:
      "lookup_image root db = Some img1" "lookup_annotation u root img1 db = Some a1"
      "parse_objects round2 [] 0 (findall ''object'' root) = Some aps1"
      "update_polygons null_ok now a1 (polygons_by_index (polygons_by_id (visible_polygons a1 db))) aps1
         (False, polygons_by_id (visible_polygons a1 db), db) = (Inr (), (c, by_id', d))"
      "db' = (if c then save_annotation_last_edit_time (a1\<lparr>anno_last_edit_time := now\<rparr>) d else d)"
    using import_loop_inv [OF ok wf] by blast
  have "img1 = img" using h(1) img by simp
  then have a1: "a1 = a" using h(2) a by simp
  have aps1: "aps1 = aps @ [n]" using h(3) parse by simp
  have vis: "?vis = filter ?V rows @ [p]"
    using rows pv(1,2) by (simp add: visible_polygons_def)
  have dv: "distinct (map pk ?vis)"
    unfolding visible_polygons_def using wf(1) by (rule distinct_map_filter)
  have bid: "?by_id = map (\<lambda>p. (pk p, p)) (filter ?V rows) @ [(pk p, p)]"
    using polygons_by_id_distinct [OF dv] vis by simp
  have non: "\<forall>kp\<in>set (map (\<lambda>p. (pk p, p)) (filter ?V rows)). anno_index (snd kp) = None"
    using others by auto
  have bix: "?by_index = [(length aps, pk p)]"
    unfolding bid using polygons_by_index_last [OF non pv(3)] .
  have loop: "update_polygons null_ok now a [(length aps, pk p)] (aps @ [n]) (False, ?by_id, db)
               = (Inr (), (c, by_id', d))"
    using h(4) a1 aps1 bix by simp
  obtain r1 c1 b1 d1 where s1:
      "update_polygons null_ok now a [(length aps, pk p)] aps (False, ?by_id, db) = (r1, (c1, b1, d1))"
    by (metis prod_cases3 surj_pair)
  have r1: "r1 = Inr ()"
  proof (cases r1)
    case (Inl e)
    then show ?thesis using loop s1 by (simp add: update_polygons_append)
  next
    case (Inr v)
    then show ?thesis by simp
  qed
  have s1': "update_polygons null_ok now a [(length aps, pk p)] aps (False, ?by_id, db)
              = (Inr (), (c1, b1, d1))"
    using s1 r1 by simp
  have last_step: "update_polygons null_ok now a [(length aps, pk p)] [n] (c1, b1, d1)
                    = (Inr (), (c, by_id', d))"
    using loop s1' by (simp add: update_polygons_append)
  obtain rn stn where sn: "update_polygon null_ok now a [(length aps, pk p)] n (c1, b1, d1) = (rn, stn)"
    by (cases "update_polygon null_ok now a [(length aps, pk p)] n (c1, b1, d1)")
  have stepn: "update_polygon null_ok now a [(length aps, pk p)] n (c1, b1, d1)
                = (Inr (), (c, by_id', d))"
    using last_step sn by (cases rn) simp_all
  have F0: "frame_ok a db db" using frame_ok_refl [OF wf] .
  have L0: "loaded_ok a db ?by_id db" using loaded_ok_init .
  note i1 = update_polygons_inv [OF s1' F0 L0 wf(1)]
  have F1: "frame_ok a db d1" and L1: "loaded_ok a db b1 d1" using i1 by simp_all
  have pks1: "map pk (polygons d1) = map pk (polygons db)"
    using update_polygons_ids_pks [OF s1' F0 L0 wf(1) ids] .
  have dist1: "distinct (map pk (polygons d1))"
    using F1 unfolding frame_ok_def by simp
  have idx: "ap_index n = length aps"
    using parse_objects_last_index [OF parse] .
  have "pk p \<in> pk ` set ?vis" using vis by simp
  then have "pk p \<in> dom (map_of b1)" using loaded_ok_dom [OF L1] by simp
  then obtain q where q: "map_of b1 (pk p) = Some q" by blast
  have qf: "q \<in> set (polygons d1)" "pk q = pk p"
    using loaded_okD [OF L1 q] by simp_all
  have fp: "find_polygon a b1 [(length aps, pk p)] n = Inr (Some (q, False))"
    using nid idx q by (simp add: find_polygon_def)
  have pin: "pk p \<in> set (map pk (polygons db))" using rows by simp
  have "pk p \<noteq> None"
  proof
    assume "pk p = None"
    then show False using pin wf(2) by simp
  qed
  then obtain i where i: "pk p = Some i" by auto
  have pq: "pk q = Some i" using qf(2) i by simp
  have "pk q \<in> pk ` set (polygons d1)" using qf(1) by (rule imageI)
  then have mem: "Some i \<in> set (map pk (polygons d1))"
    unfolding pq set_map .
  note m = update_polygon_matched [OF fp stepn pq mem]
  have ne: "polygons d1 \<noteq> []"
    using pks1 rows by auto
  have "pk (last (polygons d1)) = last (map pk (polygons d1))"
    using ne by (simp add: last_map)
  also have "\<dots> = pk p" unfolding pks1 rows by simp
  finally have lp: "pk (last (polygons d1)) = pk p" .
  have lq: "last (polygons d1) = q"
    using distinct_pk_eq [OF dist1 _ qf(1)] ne lp qf(2) by simp
  have pd: "polygons db' = polygons d" using h(5) by (simp add: save_time_fields)
  show ?thesis
  proof (cases "d = d1 \<and> label_as_str q = ap_name n")
    case True
    then show ?thesis using pd pks1 lq by simp
  next
    case False
    let ?g = "\<lambda>r. if pk r = Some i then edited now n q else r"
    have d: "d = d1\<lparr>polygons := map ?g (polygons d1)\<rparr>" using m False by blast
    have pe: "pk (edited now n q) = Some i" using pq by (simp add: edited_fields)
    have 1: "map pk (map ?g (polygons d1)) = map pk (polygons d1)"
      using pe by (simp add: comp_def cong: map_cong)
    have "last (map ?g (polygons d1)) = ?g (last (polygons d1))"
      using ne by (simp add: last_map)
    also have "\<dots> = edited now n q" using lq pq by simp
    finally have 2: "last (map ?g (polygons d1)) = edited now n q" .
    have 3: "label_as_str (edited now n q) = ap_name n" by (simp add: edited_fields)
    have pol: "polygons db' = map ?g (polygons d1)" using pd d by simp
    show ?thesis unfolding pol 2 3 using 1 pks1 by simp
  qed
qed

lemma lookup_annotation_get:
  assumes "lookup_annotation u root img db = Some a"
  shows "objects_get (\<lambda>a. annotator a = u \<and> anno_image a = image_pk img
            \<and> anno_locked a = False \<and> anno_deleted a = False) (annotations db) = Inr a"
  using assms
  by (auto simp: lookup_annotation_def split: option.splits sum.splits if_splits)

lemma export_effect:
  assumes "get_annotation_xml fmt2 key u image_id db0 = (Inr body, db1)"
  shows "\<exists>a0. objects_get (\<lambda>a. annotator a = u \<and> anno_image a = image_id \<and> anno_deleted a = False)
                 (annotations db0) = Inr a0
     \<and> map pk (polygons db1) = map pk (polygons db0)
     \<and> (\<forall>p\<in>set (polygons db1). annotation p = anno_pk a0 \<and> deleted p = False \<longrightarrow> anno_index p = None)
     \<and> annotations db1 =
          map (\<lambda>r. if anno_pk r = anno_pk a0 then a0\<lparr>edit_key := key\<rparr> else r) (annotations db0)"
proof -
  obtain a0 where a0: "objects_get (\<lambda>a. annotator a = u \<and> anno_image a = image_id \<and> anno_deleted a = False)
                 (annotations db0) = Inr a0"
    and db1: "db1 = clear_indices (a0\<lparr>edit_key := key\<rparr>) (save_annotation (a0\<lparr>edit_key := key\<rparr>) db0)"
    using get_annotation_xml_success [OF assms] by blast
  let ?clr = "\<lambda>p. if annotation p = anno_pk a0 \<and> deleted p = False \<and> anno_index p \<noteq> None
                   then p\<lparr>anno_index := None\<rparr> else p"
  have pol: "polygons db1 = map ?clr (polygons db0)"
    unfolding db1 by (simp add: clear_indices_def save_annotation_def)
  have 1: "map pk (polygons db1) = map pk (polygons db0)"
    unfolding pol by (simp add: comp_def cong: map_cong)
  have 2: "\<forall>p\<in>set (polygons db1). annotation p = anno_pk a0 \<and> deleted p = False \<longrightarrow> anno_index p = None"
  proof
    fix p assume "p \<in> set (polygons db1)"
    then have "p \<in> ?clr ` set (polygons db0)" unfolding pol set_map .
    then obtain p0 where p0: "p = ?clr p0" by (rule imageE)
    show "annotation p = anno_pk a0 \<and> deleted p = False \<longrightarrow> anno_index p = None"
      unfolding p0 by (cases "anno_index p0 = None") auto
  qed
  have 3: "annotations db1 =
          map (\<lambda>r. if anno_pk r = anno_pk a0 then a0\<lparr>edit_key := key\<rparr> else r) (annotations db0)"
    unfolding db1 by (simp add: clear_indices_def save_annotation_def)
  show ?thesis using a0 1 2 3 by blast
qed

lemma annotation_after_export:
  assumes a0: "objects_get (\<lambda>a. annotator a = u \<and> anno_image a = image_id \<and> anno_deleted a = False)
                 (annotations db0) = Inr a0"
      and anns: "annotations db1 =
          map (\<lambda>r. if anno_pk r = anno_pk a0 then a0\<lparr>edit_key := key\<rparr> else r) (annotations db0)"
      and a1: "lookup_annotation u root img db1 = Some a1" and ipk: "image_pk img = image_id"
  shows "anno_pk a1 = anno_pk a0"
proof -
  have f: "a1 \<in> set (annotations db1)" "annotator a1 = u" "anno_image a1 = image_id"
    "anno_deleted a1 = False"
    using lookup_annotation_Some [OF a1] ipk by simp_all
  obtain r where r: "r \<in> set (annotations db0)"
      "a1 = (if anno_pk r = anno_pk a0 then a0\<lparr>edit_key := key\<rparr> else r)"
    using f(1) unfolding anns by auto
  show ?thesis
  proof (cases "anno_pk r = anno_pk a0")
    case True
    then show ?thesis using r(2) by simp
  next
    case False
    then have "a1 = r" using r(2) by simp
    then have "r = a0"
      using objects_get_unique [OF a0 r(1)] f by simp
    then show ?thesis using False by simp
  qed
qed

lemma annotation_after_import:
  assumes a1: "lookup_annotation u root1 img1 db1 = Some a1"
      and anns: "annotations db2 =
          map (\<lambda>r. if anno_pk r = anno_pk a1 then r\<lparr>anno_last_edit_time := now\<rparr> else r)
              (annotations db1)"
      and a2: "lookup_annotation u root2 img2 db2 = Some a2"
      and ipk: "image_pk img2 = image_pk img1"
  shows "anno_pk a2 = anno_pk a1"
proof -
  have f: "a1 \<in> set (annotations db1)" "annotator a1 = u" "anno_image a1 = image_pk img1"
    "anno_locked a1 = False" "anno_deleted a1 = False"
    using lookup_annotation_Some [OF a1] by simp_all
  let ?a = "a1\<lparr>anno_last_edit_time := now\<rparr>"
  let ?f = "\<lambda>r. if anno_pk r = anno_pk a1 then r\<lparr>anno_last_edit_time := now\<rparr> else r"
  have "?f a1 \<in> ?f ` set (annotations db1)" using f(1) by (rule imageI)
  then have mem: "?a \<in> set (annotations db2)" unfolding anns by simp
  have "?a = a2"
    using objects_get_unique [OF lookup_annotation_get [OF a2] mem] f ipk by simp
  then show ?thesis by auto
qed

text \<open>
  C5. An object without id whose position has no entry in \<open>polygons_by_index\<close>, that is
  not marked deleted and has a name (or a label column that accepts NULL), makes the
  loop insert a polygon with that position as its \<open>anno_index\<close>. Consequently, in a
  session that nothing interleaves with: after an export, an import whose objects all
  carry an id except the last one, which is new, appends exactly one polygon, with the
  position of that object as index and its name as label; a second import with as many
  objects, of which again only the last has no id, adds no polygon, and the label of
  the polygon the first import created is the name the second import gives.
\<close>

theorem new_polygon_attributed_again:
  assumes wf: "distinct (map pk (polygons (db0 :: 'c database)))"
        "None \<notin> set (map pk (polygons db0))"
      and exp: "get_annotation_xml fmt2 key u image_id db0 = (Inr body, db1)"
      and img1: "lookup_image root1 db1 = Some img1" and ipk1: "image_pk img1 = image_id"
      and imp1: "process_annotation_xml null_ok round2 now1 u root1 db1 db1 = (Inr (), db2)"
      and parse1: "parse_objects round2 [] 0 (findall ''object'' root1) = Some (aps1 @ [n1])"
      and ids1: "\<forall>ap\<in>set aps1. ap_id ap \<noteq> None"
      and nid1: "ap_id n1 = None" and nd1: "\<not> ap_deleted n1"
      and img2: "lookup_image root2 db2 = Some img2" and ipk2: "image_pk img2 = image_id"
      and imp2: "process_annotation_xml null_ok round2 now2 u root2 db2 db2 = (Inr (), db3)"
      and parse2: "parse_objects round2 [] 0 (findall ''object'' root2) = Some (aps2 @ [n2])"
      and ids2: "\<forall>ap\<in>set aps2. ap_id ap \<noteq> None"
      and nid2: "ap_id n2 = None" and len: "length aps2 = length aps1"
  shows "(\<forall>ap by_index a c by_id (d :: 'c database).
            ap_id ap = None \<and> map_of by_index (ap_index ap) = None \<and> ap_deleted ap = False
            \<and> (ap_name ap \<noteq> None \<or> null_ok) \<longrightarrow>
            (\<exists>p. update_polygon null_ok now1 a by_index ap (c, by_id, d)
                   = (Inr (), (True, by_id, d\<lparr>polygons := polygons d @ [p]\<rparr>))
                 \<and> pk p = Some (fresh_pk (polygons d)) \<and> annotation p = anno_pk a
                 \<and> anno_index p = Some (ap_index ap) \<and> label_as_str p = ap_name ap))
       \<and> ap_index n1 = length aps1
       \<and> length (polygons db2) = Suc (length (polygons db1))
       \<and> take (length (polygons db1)) (map pk (polygons db2)) = map pk (polygons db1)
       \<and> pk (last (polygons db2)) \<notin> set (map pk (polygons db1))
       \<and> anno_index (last (polygons db2)) = Some (ap_index n1)
       \<and> label_as_str (last (polygons db2)) = ap_name n1
       \<and> map pk (polygons db3) = map pk (polygons db2)
       \<and> label_as_str (last (polygons db3)) = ap_name n2"
proof -
  have gen: "\<forall>ap by_index a c by_id (d :: 'c database).
            ap_id ap = None \<and> map_of by_index (ap_index ap) = None \<and> ap_deleted ap = False
            \<and> (ap_name ap \<noteq> None \<or> null_ok) \<longrightarrow>
            (\<exists>p. update_polygon null_ok now1 a by_index ap (c, by_id, d)
                   = (Inr (), (True, by_id, d\<lparr>polygons := polygons d @ [p]\<rparr>))
                 \<and> pk p = Some (fresh_pk (polygons d)) \<and> annotation p = anno_pk a
                 \<and> anno_index p = Some (ap_index ap) \<and> label_as_str p = ap_name ap)"
  proof (intro allI impI)
    fix ap :: "'c anno_polygon" and by_index :: "(nat \<times> int option) list"
      and a c by_id and d :: "'c database"
    assume g: "ap_id ap = None \<and> map_of by_index (ap_index ap) = None \<and> ap_deleted ap = False
            \<and> (ap_name ap \<noteq> None \<or> null_ok)"
    let ?p = "(edited now1 ap (new_polygon a (ap_index ap)))\<lparr>pk := Some (fresh_pk (polygons d))\<rparr>"
    have g1: "ap_id ap = None" and g2: "map_of by_index (ap_index ap) = None"
      and g3: "\<not> ap_deleted ap" and g4: "\<not> (ap_name ap = None \<and> null_ok = False)"
      using g by auto
    have up: "update_polygon null_ok now1 a by_index ap (c, by_id, d)
                   = (Inr (), (True, by_id, d\<lparr>polygons := polygons d @ [?p]\<rparr>))"
      using update_polygon_new [OF g1 g2 g3, of null_ok now1 a c by_id d] g4 by simp
    have pf: "pk ?p = Some (fresh_pk (polygons d))" "annotation ?p = anno_pk a"
      "anno_index ?p = Some (ap_index ap)" "label_as_str ?p = ap_name ap"
      by (simp_all add: edited_def new_polygon_def)
    show "\<exists>p. update_polygon null_ok now1 a by_index ap (c, by_id, d)
                   = (Inr (), (True, by_id, d\<lparr>polygons := polygons d @ [p]\<rparr>))
                 \<and> pk p = Some (fresh_pk (polygons d)) \<and> annotation p = anno_pk a
                 \<and> anno_index p = Some (ap_index ap) \<and> label_as_str p = ap_name ap"
      using up pf by (intro exI [of _ ?p] conjI)
  qed
  obtain a0 where a0: "objects_get (\<lambda>a. annotator a = u \<and> anno_image a = image_id \<and> anno_deleted a = False)
                 (annotations db0) = Inr a0"
     and pks01: "map pk (polygons db1) = map pk (polygons db0)"
     and noidx0: "\<forall>p\<in>set (polygons db1). annotation p = anno_pk a0 \<and> deleted p = False \<longrightarrow> anno_index p = None"
     and anns1: "annotations db1 =
          map (\<lambda>r. if anno_pk r = anno_pk a0 then a0\<lparr>edit_key := key\<rparr> else r) (annotations db0)"
    using export_effect [OF exp] by blast
  have wf1: "distinct (map pk (polygons db1))" "None \<notin> set (map pk (polygons db1))"
    unfolding pks01 using wf by simp_all
  obtain i1 a1 where la1: "lookup_image root1 db1 = Some i1" "lookup_annotation u root1 i1 db1 = Some a1"
    using process_success_seq [OF imp1] by blast
  have "i1 = img1" using la1(1) img1 by simp
  then have a1: "lookup_annotation u root1 img1 db1 = Some a1" using la1(2) by simp
  have pk1: "anno_pk a1 = anno_pk a0"
    using annotation_after_export [OF a0 anns1 a1 ipk1] .
  have noidx1: "\<forall>p\<in>set (visible_polygons a1 db1). anno_index p = None"
    using noidx0 pk1 by (simp add: visible_polygons_iff)
  obtain rows p where c1:
      "polygons db2 = rows @ [p]" "map pk rows = map pk (polygons db1)"
      "p = (edited now1 n1 (new_polygon a1 (length aps1)))\<lparr>pk := Some (fresh_pk rows)\<rparr>"
      "\<forall>q\<in>set rows. annotation q = anno_pk a1 \<and> deleted q = False \<longrightarrow> anno_index q = None"
      "distinct (map pk (polygons db2))" "None \<notin> set (map pk (polygons db2))"
      "annotations db2 =
           map (\<lambda>r. if anno_pk r = anno_pk a1 then r\<lparr>anno_last_edit_time := now1\<rparr> else r)
               (annotations db1)"
    using import_creates_last [OF imp1 wf1 img1 a1 parse1 ids1 nid1 nd1 noidx1] by blast
  obtain i2 a2 where la2: "lookup_image root2 db2 = Some i2" "lookup_annotation u root2 i2 db2 = Some a2"
    using process_success_seq [OF imp2] by blast
  have "i2 = img2" using la2(1) img2 by simp
  then have a2: "lookup_annotation u root2 img2 db2 = Some a2" using la2(2) by simp
  have ipk: "image_pk img2 = image_pk img1" using ipk1 ipk2 by simp
  have pk2: "anno_pk a2 = anno_pk a1"
    using annotation_after_import [OF a1 c1(7) a2 ipk] .
  have pf: "annotation p = anno_pk a2" "deleted p = False" "anno_index p = Some (length aps2)"
    "label_as_str p = ap_name n1" "pk p = Some (fresh_pk rows)"
    unfolding c1(3) using pk2 nd1 len by (simp_all add: edited_def new_polygon_def)
  have others2: "\<forall>q\<in>set rows. annotation q = anno_pk a2 \<and> deleted q = False \<longrightarrow> anno_index q = None"
    using c1(4) pk2 by simp
  note m = import_matches_last [OF imp2 c1(5) c1(6) img2 a2 parse2 ids2 nid2 c1(1) pf(1) pf(2) pf(3) others2]
  have idx: "ap_index n1 = length aps1"
    using parse_objects_last_index [OF parse1] .
  have lr: "length rows = length (polygons db1)"
    using c1(2) by (rule map_eq_imp_length_eq)
  have 2: "length (polygons db2) = Suc (length (polygons db1))"
    unfolding c1(1) using lr by simp
  have 3: "take (length (polygons db1)) (map pk (polygons db2)) = map pk (polygons db1)"
    unfolding c1(1) using lr c1(2) by simp
  have lastp: "last (polygons db2) = p" unfolding c1(1) by simp
  have "Some (fresh_pk rows) \<notin> set (map pk rows)" by (rule fresh_pk_notin)
  then have 4: "pk (last (polygons db2)) \<notin> set (map pk (polygons db1))"
    unfolding lastp pf(5) c1(2) .
  have 5: "anno_index (last (polygons db2)) = Some (ap_index n1)"
    unfolding lastp using pf(3) len idx by simp
  have 6: "label_as_str (last (polygons db2)) = ap_name n1"
    unfolding lastp by (rule pf(4))
  show ?thesis
    using gen idx 2 3 4 5 6 m by (intro conjI) simp_all
qed

lemma ex_session_export:
  "get_annotation_xml ex_fmt2 [1, 2] 1 7 ex_db = (Inr ex_export_body, ex_db_exported)"
  by code_simp

lemma ex_session_first:
  "lookup_image ex_first_document ex_db_exported = Some ex_image
   \<and> image_pk ex_image = 7
   \<and> process_annotation_xml False ex_round2 3 1 ex_first_document ex_db_exported ex_db_exported
       = (Inr (), ex_db_first)
   \<and> parse_objects ex_round2 [] 0 (findall ''object'' ex_first_document)
       = Some ([ex_ap_cat] @ [ex_ap_new ''dog''])"
  by code_simp

lemma ex_session_second:
  "lookup_image ex_second_document ex_db_first = Some ex_image
   \<and> process_annotation_xml False ex_round2 4 1 ex_second_document ex_db_first ex_db_first
       = (Inr (), ex_db_second)
   \<and> parse_objects ex_round2 [] 0 (findall ''object'' ex_second_document)
       = Some ([ex_ap_cat] @ [ex_ap_new ''wolf''])"
  by code_simp

theorem new_polygon_attributed_again_witness:
  "get_annotation_xml ex_fmt2 [1, 2] 1 7 ex_db = (Inr ex_export_body, ex_db_exported)
   \<and> process_annotation_xml False ex_round2 3 1 ex_first_document ex_db_exported ex_db_exported
       = (Inr (), ex_db_first)
   \<and> process_annotation_xml False ex_round2 4 1 ex_second_document ex_db_first ex_db_first
       = (Inr (), ex_db_second)
   \<and> length (polygons ex_db_first) = Suc (length (polygons ex_db_exported))
   \<and> anno_index (last (polygons ex_db_first)) = Some 1
   \<and> label_as_str (last (polygons ex_db_first)) = Some ''dog''
   \<and> map pk (polygons ex_db_second) = map pk (polygons ex_db_first)
   \<and> label_as_str (last (polygons ex_db_second)) = Some ''wolf''"
proof -
  have wf: "distinct (map pk (polygons ex_db))" "None \<notin> set (map pk (polygons ex_db))"
    using ex_db_keys by simp_all
  have f: "lookup_image ex_first_document ex_db_exported = Some ex_image"
    "image_pk ex_image = 7"
    "process_annotation_xml False ex_round2 3 1 ex_first_document ex_db_exported ex_db_exported
       = (Inr (), ex_db_first)"
    "parse_objects ex_round2 [] 0 (findall ''object'' ex_first_document)
       = Some ([ex_ap_cat] @ [ex_ap_new ''dog''])"
    using ex_session_first by simp_all
  have s: "lookup_image ex_second_document ex_db_first = Some ex_image"
    "process_annotation_xml False ex_round2 4 1 ex_second_document ex_db_first ex_db_first
       = (Inr (), ex_db_second)"
    "parse_objects ex_round2 [] 0 (findall ''object'' ex_second_document)
       = Some ([ex_ap_cat] @ [ex_ap_new ''wolf''])"
    using ex_session_second by simp_all
  have ids: "\<forall>ap\<in>set [ex_ap_cat]. ap_id ap \<noteq> None"
    by (simp add: ex_ap_cat_def)
  have n1: "ap_id (ex_ap_new ''dog'') = None" "\<not> ap_deleted (ex_ap_new ''dog'')"
    by (simp_all add: ex_ap_new_def)
  have n2: "ap_id (ex_ap_new ''wolf'') = None"
    by (simp add: ex_ap_new_def)
  have len: "length [ex_ap_cat] = length [ex_ap_cat]" by simp
  note t = new_polygon_attributed_again [OF wf ex_session_export f(1) f(2) f(3) f(4) ids n1(1) n1(2)
             s(1) f(2) s(2) s(3) ids n2 len]
  have nm: "ap_index (ex_ap_new ''dog'') = 1" "ap_name (ex_ap_new ''dog'') = Some ''dog''"
    "ap_name (ex_ap_new ''wolf'') = Some ''wolf''"
    by (simp_all add: ex_ap_new_def)
  show ?thesis
    using ex_session_export f(3) s(2) t nm by simp
qed

end
